theory Spec2Isabelle
  imports Complex_Main "HOL-Library.Word"
begin

unbundle bit_operations_syntax

section \<open>The server-side bridge (app/src/index.ts)\<close>

subsection \<open>JSON values and JavaScript coercions\<close>

text \<open>
  A value produced by \<^verbatim>\<open>JSON.parse\<close>, or handed to \<^verbatim>\<open>JSON.stringify\<close>. An object
  is the list of its own properties. A property that is absent reads as
  \<^verbatim>\<open>undefined\<close>, which is \<open>None\<close> here.
\<close>

datatype json =
    JNull
  | JBool bool
  | JNum real
  | JStr string
  | JArr "json list"
  | JObj "(string \<times> json) list"

text \<open>\<^verbatim>\<open>message.key\<close> for the keys the handlers read (type, data, mimeType,
  setupComplete): only an object can own them.\<close>

fun get_prop :: "json \<Rightarrow> string \<Rightarrow> json option" where
  "get_prop (JObj kvs) k = map_of kvs k"
| "get_prop _ k = None"

text \<open>\<^verbatim>\<open>Object.prototype.hasOwnProperty.call(message, key)\<close>.\<close>

definition hasOwnProperty :: "json \<Rightarrow> string \<Rightarrow> bool" where
  "hasOwnProperty m k = (get_prop m k \<noteq> None)"

text \<open>JavaScript truthiness of a parsed value.\<close>

fun truthy :: "json \<Rightarrow> bool" where
  "truthy JNull = False"
| "truthy (JBool b) = b"
| "truthy (JNum r) = (r \<noteq> 0)"
| "truthy (JStr s) = (s \<noteq> [])"
| "truthy (JArr _) = True"
| "truthy (JObj _) = True"

definition truthy_opt :: "json option \<Rightarrow> bool" where
  "truthy_opt v = (case v of None \<Rightarrow> False | Some j \<Rightarrow> truthy j)"

text \<open>\<^verbatim>\<open>a ?? b\<close>: the default is taken for \<^verbatim>\<open>undefined\<close> and \<^verbatim>\<open>null\<close> only.\<close>

definition nullish_or :: "json option \<Rightarrow> json \<Rightarrow> json" where
  "nullish_or v d = (case v of None \<Rightarrow> d | Some JNull \<Rightarrow> d | Some j \<Rightarrow> j)"

fun join_comma :: "string list \<Rightarrow> string" where
  "join_comma [] = []"
| "join_comma [s] = s"
| "join_comma (s # t # ss) = s @ '','' @ join_comma (t # ss)"

text \<open>The string a template literal makes of a value, \<open>None\<close> when the conversion
  throws a \<^verbatim>\<open>TypeError\<close>. The text of a number is the platform's
  \<^verbatim>\<open>Number::toString\<close>, taken as the parameter \<open>nts\<close>. An array is joined with
  commas, \<^verbatim>\<open>null\<close> elements giving the empty string. An object answers through
  its \<^verbatim>\<open>toString\<close>: the inherited one gives \<^verbatim>\<open>[object Object]\<close>, and an own
  property of that name, which in a parsed value is never callable, leaves no
  conversion, so the literal throws.\<close>

definition join_results :: "string option list \<Rightarrow> string option" where
  "join_results rs = (if None \<in> set rs then None else Some (join_comma (map the rs)))"

fun js_to_string :: "(real \<Rightarrow> string) \<Rightarrow> json \<Rightarrow> string option" where
  "js_to_string nts JNull = Some ''null''"
| "js_to_string nts (JBool b) = Some (if b then ''true'' else ''false'')"
| "js_to_string nts (JNum r) = Some (nts r)"
| "js_to_string nts (JStr s) = Some s"
| "js_to_string nts (JArr xs) =
     join_results (map (\<lambda>x. if x = JNull then Some [] else js_to_string nts x) xs)"
| "js_to_string nts (JObj kvs) =
     (if map_of kvs ''toString'' = None then Some ''[object Object]'' else None)"

text \<open>The data of a WebSocket message: text that \<^verbatim>\<open>JSON.parse\<close> rejects, or
  text that parses to a value.\<close>

datatype raw_data = Malformed | Wellformed json

text \<open>\<^verbatim>\<open>parseJson\<close>: the parsed value, \<^verbatim>\<open>null\<close> when parsing throws.\<close>

fun parseJson :: "raw_data \<Rightarrow> json" where
  "parseJson Malformed = JNull"
| "parseJson (Wellformed j) = j"

subsection \<open>Configuration\<close>

record config =
  enableGeminiBridge :: bool
  geminiApiKey :: string
  geminiWsEndpoint :: string
  geminiModel :: string
  vadStartSensitivity :: string
  vadEndSensitivity :: string
  vadPrefixPaddingMs :: json
  vadSilenceDurationMs :: json

fun starts_with :: "string \<Rightarrow> string \<Rightarrow> bool" where
  "starts_with [] s = True"
| "starts_with (p # ps) [] = False"
| "starts_with (p # ps) (c # cs) = (p = c \<and> starts_with ps cs)"

definition normalizeModelName :: "string \<Rightarrow> string" where
  "normalizeModelName model =
     (if starts_with ''models/'' model then model else ''models/'' @ model)"

definition buildGeminiSetup :: "config \<Rightarrow> json" where
  "buildGeminiSetup cfg =
     JObj [(''setup'', JObj [
       (''model'', JStr (normalizeModelName (geminiModel cfg))),
       (''generationConfig'', JObj [(''responseModalities'', JArr [JStr ''AUDIO''])]),
       (''inputAudioTranscription'', JObj []),
       (''outputAudioTranscription'', JObj []),
       (''realtimeInputConfig'', JObj [
         (''automaticActivityDetection'', JObj [
           (''disabled'', JBool False),
           (''startOfSpeechSensitivity'', JStr (vadStartSensitivity cfg)),
           (''endOfSpeechSensitivity'', JStr (vadEndSensitivity cfg)),
           (''prefixPaddingMs'', vadPrefixPaddingMs cfg),
           (''silenceDurationMs'', vadSilenceDurationMs cfg)])])])]"

subsection \<open>Sockets, effects and the session\<close>

datatype ready_state = CONNECTING | OPEN | CLOSING | CLOSED

datatype sock = Client | Upstream

text \<open>The exceptions of the platform that the code can meet.\<close>

datatype js_error = InvalidCharacterError | RangeError | NotSupportedError | TypeError

text \<open>What a handler does, in the order it does it:
  \<^verbatim>\<open>new WebSocket(url)\<close>, \<^verbatim>\<open>sendJson(ws, payload)\<close>, \<^verbatim>\<open>ws.close(code, reason)\<close>,
  \<^verbatim>\<open>ws.terminate()\<close>, and an exception that it throws and does not catch.\<close>

datatype effect =
    NewWebSocket string
  | Send sock json
  | Close sock int string
  | Terminate sock
  | Throw js_error

text \<open>One downstream connection. \<open>gemini_ws\<close> is \<open>None\<close> when the connection
  handler returned before creating the upstream socket (no handler is
  registered then), and the upstream socket's \<^verbatim>\<open>readyState\<close> otherwise.\<close>

record session =
  client_state :: ready_state
  gemini_ws :: "ready_state option"

text \<open>The socket library's \<^verbatim>\<open>readyState\<close> after \<^verbatim>\<open>close()\<close> or \<^verbatim>\<open>terminate()\<close>.\<close>

fun closing :: "ready_state \<Rightarrow> ready_state" where
  "closing CLOSED = CLOSED"
| "closing _ = CLOSING"

text \<open>\<^verbatim>\<open>wss.on("connection")\<close>, up to the creation of the upstream socket.\<close>

definition on_connection :: "config \<Rightarrow> session \<times> effect list" where
  "on_connection cfg =
     (if \<not> enableGeminiBridge cfg then
        (\<lparr>client_state = closing OPEN, gemini_ws = None\<rparr>,
         [Send Client (JObj [(''type'', JStr ''error''),
                             (''message'', JStr ''Gemini bridge is disabled.'')]),
          Close Client 1013 ''Gemini bridge disabled''])
      else if geminiApiKey cfg = [] then
        (\<lparr>client_state = closing OPEN, gemini_ws = None\<rparr>,
         [Send Client (JObj [(''type'', JStr ''error''),
                             (''message'', JStr ''GEMINI_API_KEY is not configured.'')]),
          Close Client 1013 ''Missing API key''])
      else
        (\<lparr>client_state = OPEN, gemini_ws = Some CONNECTING\<rparr>,
         [NewWebSocket (geminiWsEndpoint cfg @ ''?key='' @ geminiApiKey cfg)]))"

text \<open>\<^verbatim>\<open>geminiWs.on("open")\<close>.\<close>

definition on_upstream_open :: "config \<Rightarrow> session \<Rightarrow> session \<times> effect list" where
  "on_upstream_open cfg s =
     (s, [Send Upstream (buildGeminiSetup cfg),
          Send Client (JObj [(''type'', JStr ''status''),
                             (''status'', JStr ''gemini_connected'')])])"

text \<open>\<^verbatim>\<open>geminiWs.on("message")\<close>.\<close>

definition on_upstream_message :: "session \<Rightarrow> raw_data \<Rightarrow> session \<times> effect list" where
  "on_upstream_message s data =
     (let message = parseJson data in
      if \<not> truthy message then (s, [])
      else
        (s, (if hasOwnProperty message ''setupComplete''
             then [Send Client (JObj [(''type'', JStr ''ready'')])] else [])
            @ [Send Client (JObj [(''type'', JStr ''gemini''), (''message'', message)])]))"

text \<open>\<^verbatim>\<open>geminiWs.on("close")\<close>.\<close>

definition on_upstream_close :: "session \<Rightarrow> int \<Rightarrow> string \<Rightarrow> session \<times> effect list" where
  "on_upstream_close s code reason =
     (let detail = reason in
      (s\<lparr>client_state := closing (client_state s)\<rparr>,
       [Send Client (JObj [(''type'', JStr ''status''), (''status'', JStr ''gemini_closed''),
                           (''code'', JNum (of_int code)), (''reason'', JStr detail)]),
        Close Client 1011 ''Gemini upstream closed'']))"

text \<open>\<^verbatim>\<open>geminiWs.on("error")\<close>.\<close>

definition on_upstream_error :: "session \<Rightarrow> session \<times> effect list" where
  "on_upstream_error s =
     (s, [Send Client (JObj [(''type'', JStr ''error''),
                             (''message'', JStr ''Gemini upstream error.'')])])"

text \<open>\<^verbatim>\<open>client.on("message")\<close>.\<close>

definition on_client_message ::
  "(real \<Rightarrow> string) \<Rightarrow> session \<Rightarrow> raw_data \<Rightarrow> session \<times> effect list" where
  "on_client_message nts s data =
     (let message = parseJson data in
      if \<not> truthy message \<or> \<not> truthy_opt (get_prop message ''type'') then
        (s, [Send Client (JObj [(''type'', JStr ''error''),
                                (''message'', JStr ''Invalid client message.'')])])
      else if get_prop message ''type'' = Some (JStr ''ping'') then
        (s, [Send Client (JObj [(''type'', JStr ''pong'')])])
      else if gemini_ws s \<noteq> Some OPEN then
        (s, [Send Client (JObj [(''type'', JStr ''error''),
                                (''message'', JStr ''Gemini upstream not ready.'')])])
      else if get_prop message ''type'' = Some (JStr ''audio'') then
        (if \<not> truthy_opt (get_prop message ''data'') then
           (s, [Send Client (JObj [(''type'', JStr ''error''),
                                   (''message'', JStr ''audio data missing.'')])])
         else
           (s, [Send Upstream (JObj [(''realtimeInput'', JObj [(''audio'', JObj [
                  (''data'', the (get_prop message ''data'')),
                  (''mimeType'', nullish_or (get_prop message ''mimeType'')
                                   (JStr ''audio/pcm;rate=16000''))])])])]))
      else if get_prop message ''type'' = Some (JStr ''audioStreamEnd'') then
        (s, [Send Upstream (JObj [(''realtimeInput'', JObj [(''audioStreamEnd'', JBool True)])])])
      else if get_prop message ''type'' = Some (JStr ''text'') then
        (s, [Send Upstream (JObj [(''clientContent'', JObj [
               (''turns'', nullish_or (get_prop message ''data'') (JStr [])),
               (''turnComplete'', JBool True)])])])
      else
        (case js_to_string nts (the (get_prop message ''type'')) of
           None \<Rightarrow> (s, [Throw TypeError])
         | Some text \<Rightarrow>
             (s, [Send Client (JObj [(''type'', JStr ''error''),
                    (''message'', JStr (''Unknown message type: '' @ text))])])))"

text \<open>\<^verbatim>\<open>client.on("close")\<close>.\<close>

definition on_client_close :: "session \<Rightarrow> session \<times> effect list" where
  "on_client_close s =
     (if gemini_ws s = Some OPEN then
        (s\<lparr>gemini_ws := Some (closing OPEN)\<rparr>, [Close Upstream 1000 ''Client disconnected''])
      else
        (s\<lparr>gemini_ws := map_option closing (gemini_ws s)\<rparr>, [Terminate Upstream]))"

text \<open>The events of a session after the connection. The library sets a socket's
  \<^verbatim>\<open>readyState\<close> before it emits the socket's event: to \<^verbatim>\<open>OPEN\<close> before \<^verbatim>\<open>open\<close>, to
  \<^verbatim>\<open>CLOSED\<close> before \<^verbatim>\<open>close\<close>, and to \<^verbatim>\<open>CLOSING\<close> before \<^verbatim>\<open>error\<close>. A connection
  that was rejected has no handlers: an event changes nothing there but the
  state of the client socket.\<close>

datatype event =
    UpstreamOpen
  | UpstreamMessage raw_data
  | UpstreamClose int string
  | UpstreamError
  | ClientMessage raw_data
  | ClientClose
  | ClientError

fun handle :: "(real \<Rightarrow> string) \<Rightarrow> config \<Rightarrow> session \<Rightarrow> event \<Rightarrow> session \<times> effect list" where
  "handle nts cfg s ev =
     (if gemini_ws s = None then
        (case ev of
           ClientClose \<Rightarrow> (s\<lparr>client_state := CLOSED\<rparr>, [])
         | _ \<Rightarrow> (s, []))
      else
        (case ev of
           UpstreamOpen \<Rightarrow> on_upstream_open cfg (s\<lparr>gemini_ws := Some OPEN\<rparr>)
         | UpstreamMessage data \<Rightarrow> on_upstream_message s data
         | UpstreamClose code reason \<Rightarrow> on_upstream_close (s\<lparr>gemini_ws := Some CLOSED\<rparr>) code reason
         | UpstreamError \<Rightarrow> on_upstream_error (s\<lparr>gemini_ws := map_option closing (gemini_ws s)\<rparr>)
         | ClientMessage data \<Rightarrow> on_client_message nts s data
         | ClientClose \<Rightarrow> on_client_close (s\<lparr>client_state := CLOSED\<rparr>)
         | ClientError \<Rightarrow> (s, [])))"

text \<open>A run: the effects of a sequence of events, in order.\<close>

fun run :: "(real \<Rightarrow> string) \<Rightarrow> config \<Rightarrow> session \<Rightarrow> event list \<Rightarrow> session \<times> effect list" where
  "run nts cfg s [] = (s, [])"
| "run nts cfg s (ev # evs) =
     (let (s1, out1) = handle nts cfg s ev;
          (s2, out2) = run nts cfg s1 evs
      in (s2, out1 @ out2))"

text \<open>A whole session: the connection, then the events.\<close>

definition session_run :: "(real \<Rightarrow> string) \<Rightarrow> config \<Rightarrow> event list \<Rightarrow> session \<times> effect list" where
  "session_run nts cfg evs =
     (let (s0, out0) = on_connection cfg;
          (s1, out1) = run nts cfg s0 evs
      in (s1, out0 @ out1))"

section \<open>The browser client (spa/src/main.ts)\<close>


subsection \<open>Platform functions: base64 and typed arrays\<close>

text \<open>
  \<^verbatim>\<open>atob\<close>, \<^verbatim>\<open>btoa\<close> and the typed-array constructor belong to the platform, not
  to the repository. They are modelled from their standards: the base64
  alphabet of RFC 4648, the forgiving-base64 decoder of the WHATWG Infra
  standard, and \<^verbatim>\<open>ToIndex\<close> of ECMAScript. Base64 text is a \<open>string\<close>; a binary
  string is the list of its character codes.
\<close>

definition b64_char :: "nat \<Rightarrow> char" where
  "b64_char n =
     (if n < 26 then char_of (65 + n)
      else if n < 52 then char_of (97 + (n - 26))
      else if n < 62 then char_of (48 + (n - 52))
      else if n = 62 then CHR ''+'' else CHR ''/'')"

definition b64_index :: "char \<Rightarrow> nat option" where
  "b64_index c =
     (let k = (of_char c :: nat) in
      if 65 \<le> k \<and> k \<le> 90 then Some (k - 65)
      else if 97 \<le> k \<and> k \<le> 122 then Some (k - 97 + 26)
      else if 48 \<le> k \<and> k \<le> 57 then Some (k - 48 + 52)
      else if c = CHR ''+'' then Some 62
      else if c = CHR ''/'' then Some 63
      else None)"

fun encode_bytes :: "nat list \<Rightarrow> string" where
  "encode_bytes (a # b # c # rest) =
     [b64_char (a div 4), b64_char ((a mod 4) * 16 + b div 16),
      b64_char ((b mod 16) * 4 + c div 64), b64_char (c mod 64)] @ encode_bytes rest"
| "encode_bytes [a, b] =
     [b64_char (a div 4), b64_char ((a mod 4) * 16 + b div 16),
      b64_char ((b mod 16) * 4), CHR ''='']"
| "encode_bytes [a] =
     [b64_char (a div 4), b64_char ((a mod 4) * 16), CHR ''='', CHR ''='']"
| "encode_bytes [] = []"

text \<open>\<^verbatim>\<open>btoa\<close> throws on a character code above 255.\<close>

definition btoa :: "nat list \<Rightarrow> js_error + string" where
  "btoa binary =
     (if \<exists>c \<in> set binary. 255 < c then Inl InvalidCharacterError
      else Inr (encode_bytes binary))"

definition is_ascii_whitespace :: "char \<Rightarrow> bool" where
  "is_ascii_whitespace c = ((of_char c :: nat) \<in> {9, 10, 12, 13, 32})"

definition strip_padding :: "string \<Rightarrow> string" where
  "strip_padding d =
     (if 2 \<le> length d \<and> last d = CHR ''='' \<and> last (butlast d) = CHR ''=''
        then butlast (butlast d)
      else if d \<noteq> [] \<and> last d = CHR ''='' then butlast d
      else d)"

fun decode_sextets :: "nat list \<Rightarrow> nat list" where
  "decode_sextets (p # q # r # s # rest) =
     [p * 4 + q div 16, (q mod 16) * 16 + r div 4, (r mod 4) * 64 + s] @ decode_sextets rest"
| "decode_sextets [p, q, r] = [p * 4 + q div 16, (q mod 16) * 16 + r div 4]"
| "decode_sextets [p, q] = [p * 4 + q div 16]"
| "decode_sextets _ = []"

definition atob :: "string \<Rightarrow> js_error + nat list" where
  "atob data =
     (let d1 = filter (\<lambda>c. \<not> is_ascii_whitespace c) data;
          d2 = (if length d1 mod 4 = 0 then strip_padding d1 else d1)
      in if length d2 mod 4 = 1 then Inl InvalidCharacterError
         else if \<exists>c \<in> set d2. b64_index c = None then Inl InvalidCharacterError
         else Inr (decode_sextets (map (\<lambda>c. the (b64_index c)) d2)))"

text \<open>The integer part of a number (\<^verbatim>\<open>ToIntegerOrInfinity\<close>): towards zero.\<close>

definition js_trunc :: "real \<Rightarrow> int" where
  "js_trunc x = (if x < 0 then \<lceil>x\<rceil> else \<lfloor>x\<rfloor>)"

text \<open>\<^verbatim>\<open>new Int16Array(length)\<close> with a number: the length is \<^verbatim>\<open>ToIndex(length)\<close>, the
  integer part, and a negative one throws. The array is filled with zeros.\<close>

definition new_Int16Array :: "real \<Rightarrow> js_error + 16 word list" where
  "new_Int16Array len =
     (if js_trunc len < 0 then Inl RangeError
      else Inr (replicate (nat (js_trunc len)) 0))"

text \<open>\<^verbatim>\<open>DataView.getInt16(offset, true)\<close> and \<^verbatim>\<open>DataView.setInt16(offset, value, true)\<close>:
  little-endian, and a \<^verbatim>\<open>RangeError\<close> outside the buffer.\<close>

definition getInt16 :: "8 word list \<Rightarrow> nat \<Rightarrow> js_error + 16 word" where
  "getInt16 view off =
     (if length view < off + 2 then Inl RangeError
      else Inr (push_bit 8 (ucast (view ! (off + 1))) OR ucast (view ! off)))"

definition setInt16 :: "8 word list \<Rightarrow> nat \<Rightarrow> 16 word \<Rightarrow> js_error + 8 word list" where
  "setInt16 view off v =
     (if length view < off + 2 then Inl RangeError
      else Inr (view[off := ucast v, off + 1 := ucast (drop_bit 8 v)]))"

subsection \<open>decodeBase64ToInt16 and int16ToBase64\<close>

function bytes_loop :: "nat list \<Rightarrow> nat \<Rightarrow> 8 word list \<Rightarrow> 8 word list" where
  "bytes_loop binary i bytes =
     (if i < length binary
      then bytes_loop binary (i + 1) (bytes[i := word_of_nat (binary ! i)])
      else bytes)"
  by pat_completeness auto
termination
  by (relation "measure (\<lambda>(binary, i, bytes). length binary - i)") auto

function view_loop :: "8 word list \<Rightarrow> nat \<Rightarrow> 16 word list \<Rightarrow> js_error + 16 word list" where
  "view_loop view i result =
     (if i < length result
      then (case getInt16 view (i * 2) of
              Inl e \<Rightarrow> Inl e
            | Inr v \<Rightarrow> view_loop view (i + 1) (result[i := v]))
      else Inr result)"
  by pat_completeness auto
termination
  by (relation "measure (\<lambda>(view, i, result). length result - i)") auto

definition decodeBase64ToInt16 :: "string \<Rightarrow> js_error + 16 word list" where
  "decodeBase64ToInt16 base64 =
     (case atob base64 of
        Inl e \<Rightarrow> Inl e
      | Inr binary \<Rightarrow>
          (let bytes = bytes_loop binary 0 (replicate (length binary) 0) in
           case new_Int16Array (real (length binary) / 2) of
             Inl e \<Rightarrow> Inl e
           | Inr result \<Rightarrow> view_loop bytes 0 result))"

function pack_loop :: "16 word list \<Rightarrow> nat \<Rightarrow> 8 word list \<Rightarrow> js_error + 8 word list" where
  "pack_loop data i view =
     (if i < length data
      then (case setInt16 view (i * 2) (data ! i) of
              Inl e \<Rightarrow> Inl e
            | Inr view' \<Rightarrow> pack_loop data (i + 1) view')
      else Inr view)"
  by pat_completeness auto
termination
  by (relation "measure (\<lambda>(data, i, view). length data - i)") auto

text \<open>\<^verbatim>\<open>binary += String.fromCharCode(...bytes.subarray(i, i + chunk))\<close>.\<close>

function chunk_loop :: "8 word list \<Rightarrow> nat \<Rightarrow> nat list \<Rightarrow> nat list" where
  "chunk_loop bytes i binary =
     (if i < length bytes
      then chunk_loop bytes (i + 0x8000) (binary @ map unat (take 0x8000 (drop i bytes)))
      else binary)"
  by pat_completeness auto
termination
  by (relation "measure (\<lambda>(bytes, i, binary). length bytes - i)") auto

definition int16ToBase64 :: "16 word list \<Rightarrow> js_error + string" where
  "int16ToBase64 data =
     (case pack_loop data 0 (replicate (length data * 2) 0) of
        Inl e \<Rightarrow> Inl e
      | Inr bytes \<Rightarrow> btoa (chunk_loop bytes 0 []))"

subsection \<open>Numbers\<close>

text \<open>
  A JavaScript number is a finite double, an infinity or NaN; \<open>Num x\<close> is the
  finite double of value \<open>x\<close>. The sign of a zero is not kept, and a zero divisor
  is taken as positive: in the functions below a zero of either sign leads to
  the same result (a quotient by it ends in an empty array or in a
  \<^verbatim>\<open>RangeError\<close>, whichever infinity it is).
\<close>

datatype number = Num real | PInf | NInf | NaN

text \<open>
  An arithmetic operation on doubles gives the exact result, rounded. The
  rounding belongs to the platform (IEEE 754, to nearest) and is the parameter
  \<open>rnd\<close>: for a positive real, the double nearest to it, and \<open>None\<close> beyond the
  largest double. Rounding is symmetric in the sign, and zero is a double.
\<close>

type_synonym rounding = "real \<Rightarrow> real option"

definition fl :: "rounding \<Rightarrow> real \<Rightarrow> number" where
  "fl rnd x =
     (if x = 0 then Num 0
      else if 0 < x then (case rnd x of None \<Rightarrow> PInf | Some y \<Rightarrow> Num \<bar>y\<bar>)
      else (case rnd (- x) of None \<Rightarrow> NInf | Some y \<Rightarrow> Num (- \<bar>y\<bar>)))"

text \<open>\<^verbatim>\<open>a + b\<close>, \<^verbatim>\<open>a * b\<close> and \<^verbatim>\<open>a / b\<close>.\<close>

fun fadd :: "rounding \<Rightarrow> number \<Rightarrow> number \<Rightarrow> number" where
  "fadd rnd (Num x) (Num y) = fl rnd (x + y)"
| "fadd rnd NaN b = NaN"
| "fadd rnd a NaN = NaN"
| "fadd rnd PInf NInf = NaN"
| "fadd rnd NInf PInf = NaN"
| "fadd rnd PInf b = PInf"
| "fadd rnd a PInf = PInf"
| "fadd rnd NInf b = NInf"
| "fadd rnd a NInf = NInf"

fun fmul :: "rounding \<Rightarrow> number \<Rightarrow> number \<Rightarrow> number" where
  "fmul rnd (Num x) (Num y) = fl rnd (x * y)"
| "fmul rnd NaN b = NaN"
| "fmul rnd a NaN = NaN"
| "fmul rnd PInf (Num y) = (if y = 0 then NaN else if 0 < y then PInf else NInf)"
| "fmul rnd NInf (Num y) = (if y = 0 then NaN else if 0 < y then NInf else PInf)"
| "fmul rnd (Num x) PInf = (if x = 0 then NaN else if 0 < x then PInf else NInf)"
| "fmul rnd (Num x) NInf = (if x = 0 then NaN else if 0 < x then NInf else PInf)"
| "fmul rnd PInf PInf = PInf"
| "fmul rnd PInf NInf = NInf"
| "fmul rnd NInf PInf = NInf"
| "fmul rnd NInf NInf = PInf"

fun fdiv :: "rounding \<Rightarrow> number \<Rightarrow> number \<Rightarrow> number" where
  "fdiv rnd (Num x) (Num y) =
     (if y = 0 then (if x = 0 then NaN else if 0 < x then PInf else NInf)
      else fl rnd (x / y))"
| "fdiv rnd NaN b = NaN"
| "fdiv rnd a NaN = NaN"
| "fdiv rnd (Num x) PInf = Num 0"
| "fdiv rnd (Num x) NInf = Num 0"
| "fdiv rnd PInf (Num y) = (if 0 \<le> y then PInf else NInf)"
| "fdiv rnd NInf (Num y) = (if 0 \<le> y then NInf else PInf)"
| "fdiv rnd PInf b = NaN"
| "fdiv rnd NInf b = NaN"

text \<open>\<^verbatim>\<open>a < b\<close> and \<^verbatim>\<open>a === b\<close>: false when either side is NaN.\<close>

fun num_lt :: "number \<Rightarrow> number \<Rightarrow> bool" where
  "num_lt (Num x) (Num y) = (x < y)"
| "num_lt NaN b = False"
| "num_lt a NaN = False"
| "num_lt a NInf = False"
| "num_lt NInf b = True"
| "num_lt PInf b = False"
| "num_lt a PInf = True"

definition strict_eq :: "number \<Rightarrow> number \<Rightarrow> bool" where
  "strict_eq a b = (a \<noteq> NaN \<and> a = b)"

text \<open>\<^verbatim>\<open>Math.min(a, b)\<close>, \<^verbatim>\<open>Math.max(a, b)\<close> and \<^verbatim>\<open>Math.round(a)\<close>, which rounds a half
  upwards and is exact.\<close>

definition js_min :: "number \<Rightarrow> number \<Rightarrow> number" where
  "js_min a b = (if a = NaN \<or> b = NaN then NaN else if num_lt b a then b else a)"

definition js_max :: "number \<Rightarrow> number \<Rightarrow> number" where
  "js_max a b = (if a = NaN \<or> b = NaN then NaN else if num_lt a b then b else a)"

fun js_round :: "number \<Rightarrow> number" where
  "js_round (Num x) = Num (of_int (round x))"
| "js_round a = a"

text \<open>\<^verbatim>\<open>new Int16Array(length)\<close> with any number: NaN gives the length 0, and an
  infinity or a length above \<open>2 ^ 53 - 1\<close> throws. (An engine throws the same
  error for a length it cannot allocate; the model allocates every length.)\<close>

definition new_Int16Array_number :: "number \<Rightarrow> js_error + 16 word list" where
  "new_Int16Array_number len =
     (case len of
        Num x \<Rightarrow> (if 2 ^ 53 - 1 < js_trunc x then Inl RangeError else new_Int16Array x)
      | NaN \<Rightarrow> Inr []
      | _ \<Rightarrow> Inl RangeError)"

text \<open>Storing a number in an \<^verbatim>\<open>Int16Array\<close> (\<^verbatim>\<open>ToInt16\<close>): the integer part, modulo
  \<open>2 ^ 16\<close>; 0 for NaN and the infinities.\<close>

fun to_int16 :: "number \<Rightarrow> 16 word" where
  "to_int16 (Num x) = word_of_int (js_trunc x)"
| "to_int16 a = 0"

text \<open>The text of a number in a template literal.\<close>

fun number_text :: "(real \<Rightarrow> string) \<Rightarrow> number \<Rightarrow> string" where
  "number_text nts (Num x) = nts x"
| "number_text nts PInf = ''Infinity''"
| "number_text nts NInf = ''-Infinity''"
| "number_text nts NaN = ''NaN''"

subsection \<open>downsampleTo16k\<close>

text \<open>\<^verbatim>\<open>Math.max(-1, Math.min(1, x))\<close> and \<^verbatim>\<open>s < 0 ? s * 0x8000 : s * 0x7fff\<close>.\<close>

definition clamp_unit :: "number \<Rightarrow> number" where
  "clamp_unit x = js_max (Num (- 1)) (js_min (Num 1) x)"

definition scale16 :: "rounding \<Rightarrow> number \<Rightarrow> number" where
  "scale16 rnd s = (if num_lt s (Num 0) then fmul rnd s (Num 0x8000) else fmul rnd s (Num 0x7fff))"

function direct_loop :: "rounding \<Rightarrow> number list \<Rightarrow> nat \<Rightarrow> 16 word list \<Rightarrow> 16 word list" where
  "direct_loop rnd buffer i result =
     (if i < length buffer
      then (let s = clamp_unit (buffer ! i)
            in direct_loop rnd buffer (i + 1) (result[i := to_int16 (scale16 rnd s)]))
      else result)"
  by pat_completeness auto
termination
  by (relation "measure (\<lambda>(rnd, buffer, i, result). length buffer - i)") auto

text \<open>The inner \<^verbatim>\<open>for\<close> loop, from the integer index \<open>i\<close>. The index stays below
  the length of the buffer, so adding 1 to it is exact. \<^verbatim>\<open>buffer[i]\<close> at a
  negative index is \<^verbatim>\<open>undefined\<close>, which makes the sum NaN.\<close>

function window_loop ::
  "rounding \<Rightarrow> number list \<Rightarrow> number \<Rightarrow> int \<Rightarrow> number \<Rightarrow> nat \<Rightarrow> number \<times> nat" where
  "window_loop rnd buffer nextOffsetBuffer i accum count =
     (if num_lt (Num (of_int i)) nextOffsetBuffer \<and> i < int (length buffer)
      then window_loop rnd buffer nextOffsetBuffer (i + 1)
             (fadd rnd accum (if 0 \<le> i then buffer ! nat i else NaN)) (count + 1)
      else (accum, count))"
  by pat_completeness auto
termination
  by (relation "measure (\<lambda>(rnd, buffer, nextOffsetBuffer, i, accum, count).
                           nat (int (length buffer) - i))") auto

text \<open>The \<^verbatim>\<open>for\<close> statement with its initialisation \<^verbatim>\<open>i = offsetBuffer\<close>. An offset is
  0 or a value of \<^verbatim>\<open>Math.round\<close>: an integer, or not finite. From \<open>+\<infinity>\<close> and from NaN
  the loop does not iterate. (From \<open>-\<infinity>\<close> it would not end; that offset needs a
  negative ratio, with which the array is empty and the outer loop does not
  run, see \<open>resample_needs_positive_ratio\<close>.)\<close>

definition window_sum :: "rounding \<Rightarrow> number list \<Rightarrow> number \<Rightarrow> number \<Rightarrow> number \<times> nat" where
  "window_sum rnd buffer nextOffsetBuffer offsetBuffer =
     (case offsetBuffer of
        Num x \<Rightarrow> window_loop rnd buffer nextOffsetBuffer \<lfloor>x\<rfloor> (Num 0) 0
      | _ \<Rightarrow> (Num 0, 0))"

text \<open>The \<^verbatim>\<open>while\<close> loop. Besides the array it returns the averaging divisions it
  performed, dividend and divisor, in order.\<close>

function resample_loop ::
  "rounding \<Rightarrow> number list \<Rightarrow> number \<Rightarrow> nat \<Rightarrow> number \<Rightarrow> 16 word list \<Rightarrow> (number \<times> number) list
     \<Rightarrow> 16 word list \<times> (number \<times> number) list" where
  "resample_loop rnd buffer ratio offsetResult offsetBuffer result divisions =
     (if offsetResult < length result
      then (let nextOffsetBuffer = js_round (fmul rnd (Num (real (offsetResult + 1))) ratio);
                (accum, count) = window_sum rnd buffer nextOffsetBuffer offsetBuffer;
                divisor = js_max (Num 1) (Num (real count));
                avg = fdiv rnd accum divisor;
                s = clamp_unit avg
            in resample_loop rnd buffer ratio (offsetResult + 1) nextOffsetBuffer
                 (result[offsetResult := to_int16 (scale16 rnd s)])
                 (divisions @ [(accum, divisor)]))
      else (result, divisions))"
  by pat_completeness auto
termination
  by (relation "measure (\<lambda>(rnd, buffer, ratio, offsetResult, offsetBuffer, result, divisions).
                           length result - offsetResult)") auto

text \<open>\<^verbatim>\<open>downsampleTo16k\<close> with the divisions of its averages; the second argument
  is the module variable \<^verbatim>\<open>geminiInputSampleRate\<close>.\<close>

definition downsample_run ::
  "rounding \<Rightarrow> number \<Rightarrow> number list \<Rightarrow> number
     \<Rightarrow> js_error + 16 word list \<times> (number \<times> number) list" where
  "downsample_run rnd geminiInputSampleRate buffer sampleRate =
     (if strict_eq sampleRate geminiInputSampleRate then
        Inr (direct_loop rnd buffer 0 (replicate (length buffer) 0), [])
      else
        (let ratio = fdiv rnd sampleRate geminiInputSampleRate;
             newLength = js_round (fdiv rnd (Num (real (length buffer))) ratio)
         in case new_Int16Array_number newLength of
              Inl e \<Rightarrow> Inl e
            | Inr result \<Rightarrow> Inr (resample_loop rnd buffer ratio 0 (Num 0) result [])))"

text \<open>\<^verbatim>\<open>downsampleTo16k\<close>: the array it returns.\<close>

definition downsampleTo16k ::
  "rounding \<Rightarrow> number \<Rightarrow> number list \<Rightarrow> number \<Rightarrow> js_error + 16 word list" where
  "downsampleTo16k rnd geminiInputSampleRate buffer sampleRate =
     (case downsample_run rnd geminiInputSampleRate buffer sampleRate of
        Inl e \<Rightarrow> Inl e
      | Inr (result, divisions) \<Rightarrow> Inr result)"

subsection \<open>The capture handler\<close>

text \<open>The module state the worklet's message handler reads: the socket
  (\<open>None\<close> for \<^verbatim>\<open>null\<close>), the readiness flag and the input rate.\<close>

record capture =
  geminiWs :: "ready_state option"
  geminiReady :: bool
  geminiInputSampleRate :: number

text \<open>The data of a worklet message: the sample block when there is one, and
  the sample rate when it is a number.\<close>

record worklet_data =
  block :: "number list option"
  blockRate :: "number option"

text \<open>\<^verbatim>\<open>geminiWorklet.port.onmessage\<close>: the frames it sends on the socket.\<close>

definition worklet_onmessage ::
  "rounding \<Rightarrow> (real \<Rightarrow> string) \<Rightarrow> capture \<Rightarrow> worklet_data \<Rightarrow> js_error + json list" where
  "worklet_onmessage rnd nts c d =
     (if geminiWs c \<noteq> Some OPEN \<or> \<not> geminiReady c then Inr []
      else
        (case (block d, blockRate d) of
           (Some input, Some sampleRate) \<Rightarrow>
             (case downsampleTo16k rnd (geminiInputSampleRate c) input sampleRate of
                Inl e \<Rightarrow> Inl e
              | Inr pcm16 \<Rightarrow>
                  (case int16ToBase64 pcm16 of
                     Inl e \<Rightarrow> Inl e
                   | Inr base64 \<Rightarrow>
                       Inr [JObj [(''type'', JStr ''audio''),
                                  (''data'', JStr base64),
                                  (''mimeType'', JStr (''audio/pcm;rate=''
                                     @ number_text nts (geminiInputSampleRate c)))]]))
         | _ \<Rightarrow> Inr []))"

subsection \<open>The playback scheduler\<close>

text \<open>A call of \<^verbatim>\<open>source.start\<close>: the source node, its start time on the output
  clock, the duration of its buffer and where it is connected.\<close>

record scheduled =
  node :: nat
  startAt :: number
  duration :: number
  toLocal :: bool
  toLivekit :: bool

text \<open>The module state of the scheduler. Source nodes are numbered in the
  order of their creation. \<open>schedule\<close> holds the calls of \<^verbatim>\<open>start\<close>, the latest
  first, \<open>stopped\<close> the nodes \<^verbatim>\<open>stop()\<close> was called on, and \<open>ended\<close> the nodes whose
  \<^verbatim>\<open>ended\<close> event has been handled. \<open>room\<close> says whether the LiveKit room is
  connected.\<close>

record playback =
  geminiAudioContext :: bool
  geminiOutputTime :: number
  geminiPlaying :: "nat set"
  geminiPlaybackPrimed :: bool
  geminiOutputSampleRate :: number
  geminiAudioViaLivekit :: bool
  geminiLocalPlayback :: bool
  room :: bool
  created :: nat
  stopped :: "nat set"
  ended :: "nat set"
  schedule :: "scheduled list"

text \<open>\<^verbatim>\<open>stopGeminiPlayback\<close>; \<open>now\<close> is \<^verbatim>\<open>geminiAudioContext.currentTime\<close>.\<close>

definition stopGeminiPlayback :: "playback \<Rightarrow> number \<Rightarrow> playback" where
  "stopGeminiPlayback p now =
     p\<lparr>stopped := stopped p \<union> geminiPlaying p,
       geminiPlaying := {},
       geminiPlaybackPrimed := False,
       geminiOutputTime := (if geminiAudioContext p then now else Num 0)\<rparr>"

text \<open>The listener of a source's \<^verbatim>\<open>ended\<close> event.\<close>

definition source_ended :: "playback \<Rightarrow> nat \<Rightarrow> playback" where
  "source_ended p source =
     p\<lparr>geminiPlaying := geminiPlaying p - {source}, ended := insert source (ended p)\<rparr>"

function float_loop :: "16 word list \<Rightarrow> nat \<Rightarrow> real list \<Rightarrow> real list" where
  "float_loop pcm16 i float32 =
     (if i < length pcm16
      then float_loop pcm16 (i + 1) (float32[i := real_of_int (sint (pcm16 ! i)) / 0x8000])
      else float32)"
  by pat_completeness auto
termination
  by (relation "measure (\<lambda>(pcm16, i, float32). length pcm16 - i)") auto

text \<open>\<^verbatim>\<open>playGeminiAudio\<close>. The scheduler's variables are read and written after the
  \<^verbatim>\<open>await\<close>; \<open>now\<close> is \<^verbatim>\<open>ctx.currentTime\<close> there. \<^verbatim>\<open>createBuffer\<close> throws for a rate
  that is not finite, for a buffer of no frames and for a rate that is not
  positive; \<^verbatim>\<open>source.start\<close> throws for a time that is not finite or is negative,
  after the scheduler has been marked as primed. The result is the state, with
  the error when one is thrown.\<close>

definition playGeminiAudio ::
  "rounding \<Rightarrow> playback \<Rightarrow> string \<Rightarrow> number \<Rightarrow> playback \<times> js_error option" where
  "playGeminiAudio rnd p base64 now =
     (let p1 = p\<lparr>geminiAudioContext := True\<rparr> in
      case decodeBase64ToInt16 base64 of
        Inl e \<Rightarrow> (p1, Some e)
      | Inr pcm16 \<Rightarrow>
          (let float32 = float_loop pcm16 0 (replicate (length pcm16) 0) in
           case geminiOutputSampleRate p1 of
             Num rate \<Rightarrow>
               if length float32 = 0 \<or> rate \<le> 0 then (p1, Some NotSupportedError)
               else
                 (let bufferDuration = fdiv rnd (Num (real (length float32))) (Num rate);
                      source = created p1;
                      routeToLivekit = (geminiAudioViaLivekit p1 \<and> room p1);
                      routeToLocal = (geminiLocalPlayback p1 \<or> (geminiAudioViaLivekit p1 \<and> \<not> room p1));
                      leadIn = (if geminiPlaybackPrimed p1 then fl rnd 0.02 else fl rnd 0.2);
                      start = js_max (fadd rnd now leadIn) (geminiOutputTime p1);
                      p2 = p1\<lparr>geminiPlaybackPrimed := True\<rparr>
                  in case start of
                       Num t \<Rightarrow>
                         if t < 0 then (p2, Some RangeError)
                         else
                           (p2\<lparr>created := source + 1,
                               schedule := \<lparr>node = source, startAt = start,
                                             duration = bufferDuration,
                                             toLocal = routeToLocal, toLivekit = routeToLivekit\<rparr>
                                           # schedule p2,
                               geminiOutputTime := fadd rnd start bufferDuration,
                               geminiPlaying := insert source (geminiPlaying p2)\<rparr>, None)
                     | _ \<Rightarrow> (p2, Some TypeError))
           | _ \<Rightarrow> (p1, Some TypeError)))"

text \<open>The scheduler as the page drives it: a chunk is played, the \<^verbatim>\<open>ended\<close> event of
  a started source is handled, the playback is stopped (on an interruption, on
  the close of the socket and on Disconnect), the Connect button sets the output
  rate of the configuration, and the room connects or disconnects. A chunk and
  a stop carry the reading of the output clock. The audio context is also
  created when the microphone is started.\<close>

datatype scheduler_event =
    Play string number
  | Ended nat
  | Stop number
  | Configure number
  | Room bool
  | Context

definition scheduler_step :: "rounding \<Rightarrow> playback \<Rightarrow> scheduler_event \<Rightarrow> playback" where
  "scheduler_step rnd p ev =
     (case ev of
        Play base64 now \<Rightarrow> fst (playGeminiAudio rnd p base64 now)
      | Ended source \<Rightarrow> (if source \<in> node ` set (schedule p) then source_ended p source else p)
      | Stop now \<Rightarrow> stopGeminiPlayback p now
      | Configure rate \<Rightarrow>
          p\<lparr>geminiOutputSampleRate := rate, geminiAudioViaLivekit := True,
            geminiLocalPlayback := True\<rparr>
      | Room joined \<Rightarrow>
          (if joined
           then p\<lparr>room := True, geminiAudioViaLivekit := True, geminiLocalPlayback := True\<rparr>
           else p\<lparr>room := False\<rparr>)
      | Context \<Rightarrow> p\<lparr>geminiAudioContext := True\<rparr>)"

text \<open>The module's initial state.\<close>

definition scheduler_start :: playback where
  "scheduler_start =
     \<lparr>geminiAudioContext = False, geminiOutputTime = Num 0, geminiPlaying = {},
      geminiPlaybackPrimed = False, geminiOutputSampleRate = Num 24000,
      geminiAudioViaLivekit = True, geminiLocalPlayback = True, room = False,
      created = 0, stopped = {}, ended = {}, schedule = []\<rparr>"

section \<open>Vocabulary of the properties\<close>

subsection \<open>Traces of the bridge\<close>

text \<open>The \<^verbatim>\<open>ready\<close> frame and the \<^verbatim>\<open>gemini_connected\<close> status frame sent downstream, and
  a realtime-audio-input envelope sent upstream.\<close>

definition is_ready :: "effect \<Rightarrow> bool" where
  "is_ready e = (e = Send Client (JObj [(''type'', JStr ''ready'')]))"

definition is_connected :: "effect \<Rightarrow> bool" where
  "is_connected e = (e = Send Client (JObj [(''type'', JStr ''status''),
                             (''status'', JStr ''gemini_connected'')]))"

definition is_audio_forward :: "effect \<Rightarrow> bool" where
  "is_audio_forward e =
     (case e of
        Send Upstream p \<Rightarrow>
          (case get_prop p ''realtimeInput'' of
             Some r \<Rightarrow> get_prop r ''audio'' \<noteq> None
           | None \<Rightarrow> False)
      | _ \<Rightarrow> False)"

text \<open>\<open>forwards_only_after g seen trace\<close>: every audio envelope sent upstream in
  the trace comes after an effect that satisfies \<open>g\<close> (\<open>seen\<close> says whether one has
  occurred before the trace).\<close>

fun forwards_only_after :: "(effect \<Rightarrow> bool) \<Rightarrow> bool \<Rightarrow> effect list \<Rightarrow> bool" where
  "forwards_only_after g seen [] = True"
| "forwards_only_after g seen (e # es) =
     ((is_audio_forward e \<longrightarrow> seen) \<and> forwards_only_after g (seen \<or> g e) es)"

text \<open>Example inputs for the concrete instances below.\<close>

definition example_config :: config where
  "example_config = \<lparr>enableGeminiBridge = True, geminiApiKey = ''k'', geminiWsEndpoint = ''wss://u'',
     geminiModel = ''m'', vadStartSensitivity = ''START_SENSITIVITY_LOW'',
     vadEndSensitivity = ''END_SENSITIVITY_LOW'', vadPrefixPaddingMs = JNum 20,
     vadSilenceDurationMs = JNum 100\<rparr>"

definition audio_frame :: json where
  "audio_frame = JObj [(''type'', JStr ''audio''), (''data'', JStr ''AAAA'')]"

definition disabled_config :: config where
  "disabled_config = example_config\<lparr>enableGeminiBridge := False\<rparr>"

definition ping_frame :: json where
  "ping_frame = JObj [(''type'', JStr ''ping'')]"

definition audio_frame_no_data :: json where
  "audio_frame_no_data = JObj [(''type'', JStr ''audio''), (''mimeType'', JStr ''audio/pcm;rate=16000'')]"

text \<open>The text of a number in the instances; they print no number but the
  input rate 16000.\<close>

definition decimal_text :: "real \<Rightarrow> string" where
  "decimal_text r = (if r = 16000 then ''16000'' else ''0'')"

text \<open>The rounding of the instances: none, every real being taken as a double.
  In the instances of the resampler the exact result of every operation is a
  double, so that the platform computes the same values.\<close>

definition exact :: rounding where
  "exact x = Some x"

definition capture_not_ready :: capture where
  "capture_not_ready =
     \<lparr>geminiWs = Some OPEN, geminiReady = False, geminiInputSampleRate = Num 16000\<rparr>"

definition example_block :: worklet_data where
  "example_block = \<lparr>block = Some [Num (1 / 4), Num (1 / 4)], blockRate = Some (Num 32000)\<rparr>"

definition example_samples :: "number list" where
  "example_samples = [Num (1 / 2), Num (- 3 / 4), Num 2, Num 3, Num (1 / 8), Num (1 / 8)]"

definition example_playback :: playback where
  "example_playback =
     \<lparr>geminiAudioContext = True, geminiOutputTime = Num 5, geminiPlaying = {0, 1},
      geminiPlaybackPrimed = True, geminiOutputSampleRate = Num 24000,
      geminiAudioViaLivekit = True, geminiLocalPlayback = True, room = False,
      created = 2, stopped = {}, ended = {},
      schedule = [\<lparr>node = 1, startAt = Num 3, duration = Num 2, toLocal = True, toLivekit = False\<rparr>,
                  \<lparr>node = 0, startAt = Num 1, duration = Num 2, toLocal = True, toLivekit = False\<rparr>]\<rparr>"

definition example_events :: "scheduler_event list" where
  "example_events = [Play ''QUJDRA=='' (Num 0), Play ''QUJDRA=='' (Num (1 / 8)), Ended 0]"

subsection \<open>The codec\<close>

text \<open>The sample read at position \<open>k\<close> of a byte buffer, the two bytes written for
  a sample, and the sextets and the padding of an encoded byte sequence.\<close>

definition int16_at :: "8 word list \<Rightarrow> nat \<Rightarrow> 16 word" where
  "int16_at view k = push_bit 8 (ucast (view ! (2 * k + 1))) OR ucast (view ! (2 * k))"

definition int16_bytes :: "16 word \<Rightarrow> 8 word list" where
  "int16_bytes v = [ucast v, ucast (drop_bit 8 v)]"

fun sextets :: "nat list \<Rightarrow> nat list" where
  "sextets (a # b # c # rest) =
     [a div 4, (a mod 4) * 16 + b div 16, (b mod 16) * 4 + c div 64, c mod 64] @ sextets rest"
| "sextets [a, b] = [a div 4, (a mod 4) * 16 + b div 16, (b mod 16) * 4]"
| "sextets [a] = [a div 4, (a mod 4) * 16]"
| "sextets [] = []"

fun padding :: "nat list \<Rightarrow> nat" where
  "padding (a # b # c # rest) = padding rest"
| "padding [a, b] = 1"
| "padding [a] = 2"
| "padding [] = 0"

text \<open>Decoding a payload and encoding the samples again.\<close>

definition decode_then_encode :: "string \<Rightarrow> js_error + string" where
  "decode_then_encode base64 =
     (case decodeBase64ToInt16 base64 of
        Inl e \<Rightarrow> Inl e
      | Inr pcm16 \<Rightarrow> int16ToBase64 pcm16)"

subsection \<open>The resampler\<close>

text \<open>Two properties of rounding to nearest: it keeps the order, and every
  natural number up to \<open>2 ^ 53\<close> is a double.\<close>

definition num_le :: "number \<Rightarrow> number \<Rightarrow> bool" where
  "num_le a b = (num_lt a b \<or> strict_eq a b)"

definition faithful :: "rounding \<Rightarrow> bool" where
  "faithful rnd =
     ((\<forall>x y. x \<le> y \<longrightarrow> num_le (fl rnd x) (fl rnd y))
      \<and> (\<forall>n::nat. n \<le> 2 ^ 53 \<longrightarrow> fl rnd (real n) = Num (real n)))"

text \<open>Following the words of the specification, in the arithmetic of the
  code: the input-time window of output sample \<open>k\<close> holds the input samples at
  the indices from \<open>offset k\<close>, which is \<^verbatim>\<open>Math.round(k * ratio)\<close>, up to, and without,
  \<open>offset (k + 1)\<close>; \<open>float_sum\<close> adds the samples of a window from the left and
  \<open>average\<close> divides the sum by their number, an empty window by 1; \<open>quantize\<close>
  clamps and scales. \<open>int_part\<close> is what the array then holds: the integer part
  of a value within the 16-bit range, and 0 for NaN. \<open>nearest16\<close> is the integer
  nearest to the clamped and scaled value.\<close>

definition offset :: "rounding \<Rightarrow> number \<Rightarrow> nat \<Rightarrow> number" where
  "offset rnd ratio k = (if k = 0 then Num 0 else js_round (fmul rnd (Num (real k)) ratio))"

definition window :: "rounding \<Rightarrow> number list \<Rightarrow> number \<Rightarrow> nat \<Rightarrow> number list" where
  "window rnd buffer ratio k =
     map ((!) buffer)
       (filter (\<lambda>i. num_le (offset rnd ratio k) (Num (real i))
                   \<and> num_lt (Num (real i)) (offset rnd ratio (k + 1)))
          [0..<length buffer])"

text \<open>An offset of the loop is a natural number or \<open>+\<infinity>\<close>; \<open>clip n o\<close> is the first
  index of a buffer of \<open>n\<close> samples that is not below the offset, \<open>n\<close> when there is
  none.\<close>

definition is_offset :: "number \<Rightarrow> bool" where
  "is_offset off = (case off of Num x \<Rightarrow> 0 \<le> x \<and> x \<in> \<int> | PInf \<Rightarrow> True | _ \<Rightarrow> False)"

definition clip :: "nat \<Rightarrow> number \<Rightarrow> nat" where
  "clip n off = (case off of Num x \<Rightarrow> min n (nat \<lceil>x\<rceil>) | PInf \<Rightarrow> n | _ \<Rightarrow> 0)"

definition float_sum :: "rounding \<Rightarrow> number list \<Rightarrow> number" where
  "float_sum rnd w = foldl (fadd rnd) (Num 0) w"

definition average :: "rounding \<Rightarrow> number list \<Rightarrow> number" where
  "average rnd w = fdiv rnd (float_sum rnd w) (Num (real (max 1 (length w))))"

definition quantize :: "rounding \<Rightarrow> number \<Rightarrow> number" where
  "quantize rnd x = scale16 rnd (clamp_unit x)"

definition fits16 :: "number \<Rightarrow> bool" where
  "fits16 v = (case v of Num y \<Rightarrow> - 32768 \<le> y \<and> y \<le> 32767 | NaN \<Rightarrow> True | _ \<Rightarrow> False)"

definition int_part :: "number \<Rightarrow> int" where
  "int_part v = (case v of Num y \<Rightarrow> js_trunc y | _ \<Rightarrow> 0)"

definition nearest16 :: "rounding \<Rightarrow> number \<Rightarrow> int" where
  "nearest16 rnd x = (case quantize rnd x of Num y \<Rightarrow> round y | _ \<Rightarrow> 0)"

subsection \<open>The scheduler\<close>

text \<open>A run of the scheduler from the module's initial state, and the events
  that neither play nor stop.\<close>

definition scheduler_run :: "rounding \<Rightarrow> scheduler_event list \<Rightarrow> playback" where
  "scheduler_run rnd evs = foldl (scheduler_step rnd) scheduler_start evs"

text \<open>The invariant of the scheduler: every source that was started is in the
  tracking set, or was stopped, or has ended.\<close>

definition tracked :: "playback \<Rightarrow> bool" where
  "tracked p =
     (\<forall>e \<in> set (schedule p). node e \<in> geminiPlaying p \<or> node e \<in> stopped p \<or> node e \<in> ended p)"

definition quiet :: "scheduler_event \<Rightarrow> bool" where
  "quiet ev = (case ev of Play base64 now \<Rightarrow> False | Stop now \<Rightarrow> False | _ \<Rightarrow> True)"

section \<open>Properties of the bridge\<close>

lemmas handler_defs = on_upstream_open_def on_upstream_message_def on_upstream_close_def
      on_upstream_error_def on_client_message_def on_client_close_def

lemma closing_not_open [simp]: "closing y \<noteq> OPEN"
  by (cases y) simp_all

lemma client_message_state: "fst (on_client_message nts s d) = s"
  by (simp add: on_client_message_def Let_def split: option.splits)

lemma handle_keeps_pairing:
  assumes "client_state s = OPEN \<longrightarrow> gemini_ws s \<noteq> None" and "handle nts cfg s ev = (s', out)"
  shows "client_state s' = OPEN \<longrightarrow> gemini_ws s' \<noteq> None"
proof (cases ev)
  case (ClientMessage d)
  with assms show ?thesis
    using client_message_state [of nts s d] by (auto simp: prod_eq_iff split: if_splits)
qed (use assms in \<open>auto simp: on_upstream_open_def on_upstream_message_def on_upstream_close_def
      on_upstream_error_def on_client_close_def Let_def split: if_splits\<close>)

lemma run_keeps_pairing:
  assumes "client_state s = OPEN \<longrightarrow> gemini_ws s \<noteq> None"
  shows "client_state (fst (run nts cfg s evs)) = OPEN \<longrightarrow> gemini_ws (fst (run nts cfg s evs)) \<noteq> None"
  using assms
proof (induction evs arbitrary: s)
  case Nil
  then show ?case by simp
next
  case (Cons ev evs)
  obtain s1 out1 where h: "handle nts cfg s ev = (s1, out1)" by (cases "handle nts cfg s ev")
  have "client_state s1 = OPEN \<longrightarrow> gemini_ws s1 \<noteq> None"
    using handle_keeps_pairing [OF Cons.prems h] .
  from Cons.IH [OF this] h show ?case by (simp add: case_prod_beta)
qed

lemma connection_pairing:
  "client_state (fst (on_connection cfg)) = OPEN \<longrightarrow> gemini_ws (fst (on_connection cfg)) \<noteq> None"
  by (simp add: on_connection_def)

lemma session_pairing:
  assumes "client_state (fst (session_run nts cfg evs)) = OPEN"
  shows "gemini_ws (fst (session_run nts cfg evs)) \<noteq> None"
  using assms run_keeps_pairing [OF connection_pairing, where cfg1 = cfg and cfg = cfg and nts = nts and evs = evs]
  by (simp add: session_run_def case_prod_beta)

lemma rejected_run:
  "gemini_ws s = None \<Longrightarrow> snd (run nts cfg s evs) = []"
proof (induction evs arbitrary: s)
  case Nil
  then show ?case by simp
next
  case (Cons ev evs)
  have "gemini_ws (fst (handle nts cfg s ev)) = None" "snd (handle nts cfg s ev) = []"
    using Cons.prems by (cases ev; simp)+
  then show ?case using Cons.IH [of "fst (handle nts cfg s ev)"]
    by (simp add: case_prod_beta Let_def)
qed

lemma forwards_only_after_append:
  "forwards_only_after g seen (xs @ ys) = (forwards_only_after g seen xs \<and> forwards_only_after g (seen \<or> (\<exists>x\<in>set xs. g x)) ys)"
  by (induction xs arbitrary: seen) auto

lemma not_forward [simp]:
  "\<not> is_audio_forward (Send Client p)"
  "\<not> is_audio_forward (NewWebSocket u)"
  "\<not> is_audio_forward (Close k c r)"
  "\<not> is_audio_forward (Terminate k)"
  "\<not> is_audio_forward (Throw e)"
  "\<not> is_audio_forward (Send Upstream (buildGeminiSetup cfg))"
  by (simp_all add: is_audio_forward_def buildGeminiSetup_def)

lemma not_connected [simp]:
  "\<not> is_connected (Send Upstream p)"
  "\<not> is_connected (NewWebSocket u)"
  "\<not> is_connected (Close k c r)"
  "\<not> is_connected (Terminate k)"
  "\<not> is_connected (Throw e)"
  by (simp_all add: is_connected_def)

lemma client_message_forwards_only_after:
  "gemini_ws s = Some OPEN \<longrightarrow> seen \<Longrightarrow> forwards_only_after g seen (snd (on_client_message nts s d))"
  by (simp add: on_client_message_def Let_def split: option.splits)

lemma handle_forwards_only_after:
  assumes "gemini_ws s = Some OPEN \<longrightarrow> seen" and "handle nts cfg s ev = (s', out)"
  shows "forwards_only_after is_connected seen out \<and>
         (gemini_ws s' = Some OPEN \<longrightarrow> seen \<or> (\<exists>x\<in>set out. is_connected x))"
proof (cases "gemini_ws s = None")
  case True
  with assms(2) show ?thesis by (cases ev) auto
next
  case False
  show ?thesis
  proof (cases ev)
    case UpstreamOpen
    with False assms(2) show ?thesis
      by (auto simp: on_upstream_open_def is_connected_def)
  next
    case (UpstreamMessage d)
    with False assms show ?thesis
      by (auto simp: on_upstream_message_def Let_def split: if_splits)
  next
    case (UpstreamClose c r)
    with False assms(2) show ?thesis
      by (auto simp: on_upstream_close_def Let_def)
  next
    case UpstreamError
    with False assms show ?thesis
      by (auto simp: on_upstream_error_def)
  next
    case (ClientMessage d)
    with False assms(2) have "s' = s" "out = snd (on_client_message nts s d)"
      using client_message_state [of nts s d] by (auto simp: prod_eq_iff)
    with assms(1) show ?thesis
      using client_message_forwards_only_after [of s seen is_connected nts d] by simp
  next
    case ClientClose
    with False assms show ?thesis
      by (auto simp: on_client_close_def split: if_splits)
  next
    case ClientError
    with False assms show ?thesis by auto
  qed
qed

lemma run_forwards_only_after:
  assumes "gemini_ws s = Some OPEN \<longrightarrow> seen"
  shows "forwards_only_after is_connected seen (snd (run nts cfg s evs))"
  using assms
proof (induction evs arbitrary: s seen)
  case Nil
  then show ?case by simp
next
  case (Cons ev evs)
  obtain s1 out1 where h: "handle nts cfg s ev = (s1, out1)" by (cases "handle nts cfg s ev")
  from handle_forwards_only_after [OF Cons.prems h]
  have g1: "forwards_only_after is_connected seen out1"
    and nx: "gemini_ws s1 = Some OPEN \<longrightarrow> seen \<or> (\<exists>x\<in>set out1. is_connected x)" by simp_all
  have "forwards_only_after is_connected (seen \<or> (\<exists>x\<in>set out1. is_connected x)) (snd (run nts cfg s1 evs))"
    by (rule Cons.IH [OF nx])
  with g1 h show ?case
    by (simp add: forwards_only_after_append case_prod_beta)
qed


text \<open>Claim C4. In every state a session can reach in which the downstream socket is
  open, a client frame of type \<^verbatim>\<open>ping\<close> makes the handler send exactly one \<^verbatim>\<open>pong\<close>
  frame downstream and nothing upstream, whatever the state of the upstream
  socket; the session state is unchanged.\<close>

theorem ping_pong:
  assumes "client_state (fst (session_run nts cfg evs)) = OPEN"
    and "get_prop m ''type'' = Some (JStr ''ping'')"
  shows "handle nts cfg (fst (session_run nts cfg evs)) (ClientMessage (Wellformed m)) =
           (fst (session_run nts cfg evs), [Send Client (JObj [(''type'', JStr ''pong'')])])"
proof -
  have up: "gemini_ws (fst (session_run nts cfg evs)) \<noteq> None"
    using session_pairing [OF assms(1)] .
  obtain kvs where m: "m = JObj kvs"
    using assms(2) by (cases m) simp_all
  show ?thesis
    using up assms(2) m by (simp add: on_client_message_def truthy_opt_def)
qed

text \<open>An instance of C4: a ping after the upstream socket has opened.\<close>

theorem ping_pong_witness:
  "client_state (fst (session_run decimal_text example_config [UpstreamOpen])) = OPEN
   \<and> get_prop ping_frame ''type'' = Some (JStr ''ping'')
   \<and> handle decimal_text example_config (fst (session_run decimal_text example_config [UpstreamOpen]))
        (ClientMessage (Wellformed ping_frame)) =
      (fst (session_run decimal_text example_config [UpstreamOpen]),
       [Send Client (JObj [(''type'', JStr ''pong'')])])"
proof -
  have a: "client_state (fst (session_run decimal_text example_config [UpstreamOpen])) = OPEN"
    by (simp add: session_run_def on_connection_def example_config_def on_upstream_open_def)
  have b: "get_prop ping_frame ''type'' = Some (JStr ''ping'')"
    by (simp add: ping_frame_def)
  show ?thesis using a b ping_pong [OF a b] by simp
qed

text \<open>Claim C5. When the upstream socket closes with code \<open>c\<close> and reason \<open>r\<close> while
  the downstream socket is open, the handler first sends the status frame
  \<^verbatim>\<open>gemini_closed\<close> with that code and reason downstream and then closes the
  downstream socket with the fixed code 1011.\<close>

theorem upstream_close_relayed:
  assumes "client_state (fst (session_run nts cfg evs)) = OPEN"
  shows "snd (handle nts cfg (fst (session_run nts cfg evs)) (UpstreamClose c r)) =
           [Send Client (JObj [(''type'', JStr ''status''), (''status'', JStr ''gemini_closed''),
                               (''code'', JNum (of_int c)), (''reason'', JStr r)]),
            Close Client 1011 ''Gemini upstream closed'']
         \<and> client_state (fst (handle nts cfg (fst (session_run nts cfg evs)) (UpstreamClose c r)))
             = CLOSING"
  using session_pairing [OF assms] assms
  by (simp add: on_upstream_close_def)

text \<open>An instance of C5: the upstream closes with code 1000 and reason \<^verbatim>\<open>done\<close>.\<close>

theorem upstream_close_relayed_witness:
  "client_state (fst (session_run decimal_text example_config [UpstreamOpen])) = OPEN
   \<and> snd (handle decimal_text example_config
            (fst (session_run decimal_text example_config [UpstreamOpen]))
            (UpstreamClose 1000 ''done'')) =
       [Send Client (JObj [(''type'', JStr ''status''), (''status'', JStr ''gemini_closed''),
                           (''code'', JNum 1000), (''reason'', JStr ''done'')]),
        Close Client 1011 ''Gemini upstream closed'']"
proof -
  have a: "client_state (fst (session_run decimal_text example_config [UpstreamOpen])) = OPEN"
    by (simp add: session_run_def on_connection_def example_config_def on_upstream_open_def)
  show ?thesis using a upstream_close_relayed [OF a, of 1000 "''done''"] by simp
qed

text \<open>Claim C6. When the bridge is disabled, the whole trace of a session is the error
  frame \<^verbatim>\<open>Gemini bridge is disabled.\<close> followed by the close of the downstream
  socket with code 1013, whatever events follow; in particular no upstream
  socket is ever created.\<close>

theorem disabled_bridge_rejects:
  assumes "\<not> enableGeminiBridge cfg"
  shows "snd (session_run nts cfg evs) =
           [Send Client (JObj [(''type'', JStr ''error''),
                               (''message'', JStr ''Gemini bridge is disabled.'')]),
            Close Client 1013 ''Gemini bridge disabled'']
         \<and> (\<forall>url. NewWebSocket url \<notin> set (snd (session_run nts cfg evs)))"
proof -
  have "gemini_ws (fst (on_connection cfg)) = None"
    using assms by (simp add: on_connection_def)
  then have "snd (run nts cfg (fst (on_connection cfg)) evs) = []"
    by (rule rejected_run)
  then have "snd (session_run nts cfg evs) = snd (on_connection cfg)"
    by (simp add: session_run_def case_prod_beta)
  then show ?thesis using assms by (simp add: on_connection_def)
qed

text \<open>An instance of C6: a disabled bridge that receives a ping, an audio frame and
  the close of the client.\<close>

theorem disabled_bridge_rejects_witness:
  "\<not> enableGeminiBridge disabled_config
   \<and> snd (session_run decimal_text disabled_config
            [ClientMessage (Wellformed ping_frame), ClientMessage (Wellformed audio_frame), ClientClose]) =
       [Send Client (JObj [(''type'', JStr ''error''),
                           (''message'', JStr ''Gemini bridge is disabled.'')]),
        Close Client 1013 ''Gemini bridge disabled'']"
proof -
  have a: "\<not> enableGeminiBridge disabled_config"
    by (simp add: disabled_config_def)
  show ?thesis using a disabled_bridge_rejects [OF a] by simp
qed

text \<open>Claim C7. While the upstream socket is open, an \<^verbatim>\<open>audio\<close> frame without a \<^verbatim>\<open>data\<close>
  field is answered with exactly the error frame \<^verbatim>\<open>audio data missing.\<close>; nothing
  is sent upstream, no socket is closed and the session state is unchanged.\<close>

theorem audio_without_data:
  assumes "gemini_ws s = Some OPEN"
    and "get_prop m ''type'' = Some (JStr ''audio'')"
    and "get_prop m ''data'' = None"
  shows "handle nts cfg s (ClientMessage (Wellformed m)) =
           (s, [Send Client (JObj [(''type'', JStr ''error''),
                                   (''message'', JStr ''audio data missing.'')])])"
proof -
  obtain kvs where m: "m = JObj kvs"
    using assms(2) by (cases m) simp_all
  show ?thesis
    using assms m by (simp add: on_client_message_def truthy_opt_def)
qed

text \<open>An instance of C7: the frame of the scenario, with a MIME type and no data.\<close>

theorem audio_without_data_witness:
  "gemini_ws \<lparr>client_state = OPEN, gemini_ws = Some OPEN\<rparr> = Some OPEN
   \<and> get_prop audio_frame_no_data ''type'' = Some (JStr ''audio'')
   \<and> get_prop audio_frame_no_data ''data'' = None
   \<and> handle decimal_text example_config \<lparr>client_state = OPEN, gemini_ws = Some OPEN\<rparr>
        (ClientMessage (Wellformed audio_frame_no_data)) =
      (\<lparr>client_state = OPEN, gemini_ws = Some OPEN\<rparr>,
       [Send Client (JObj [(''type'', JStr ''error''),
                           (''message'', JStr ''audio data missing.'')])])"
proof -
  have a: "gemini_ws \<lparr>client_state = OPEN, gemini_ws = Some OPEN\<rparr> = Some OPEN" by simp
  have b: "get_prop audio_frame_no_data ''type'' = Some (JStr ''audio'')"
    by (simp add: audio_frame_no_data_def)
  have c: "get_prop audio_frame_no_data ''data'' = None"
    by (simp add: audio_frame_no_data_def)
  show ?thesis using a b c audio_without_data [OF a b c] by simp
qed

text \<open>Claim C1 as stated fails on the bridge: once the upstream socket is open, an
  \<^verbatim>\<open>audio\<close> frame is forwarded upstream although no \<^verbatim>\<open>ready\<close> frame has been sent
  downstream (the upstream has not acknowledged the setup yet).\<close>

theorem audio_before_ready_counterexample:
  "\<not> forwards_only_after is_ready False
       (snd (session_run decimal_text example_config
               [UpstreamOpen, ClientMessage (Wellformed audio_frame)]))"
  by (simp add: session_run_def on_connection_def example_config_def audio_frame_def
      on_upstream_open_def on_client_message_def truthy_opt_def is_audio_forward_def
      is_ready_def nullish_or_def)


text \<open>Claim C1, amended. The bridge gates audio on the upstream socket being
  open, not on the \<^verbatim>\<open>ready\<close> frame. In the trace of every session, every audio
  envelope sent upstream comes after the status frame \<^verbatim>\<open>gemini_connected\<close>, which the
  bridge sends downstream when the upstream socket opens. In every state in
  which the upstream socket is not open, an \<^verbatim>\<open>audio\<close> frame is answered with the
  error frame \<^verbatim>\<open>Gemini upstream not ready.\<close> and nothing else happens. The capture
  handler of the client sends nothing while its readiness flag is false.\<close>

theorem audio_needs_open_upstream:
  "forwards_only_after is_connected False (snd (session_run nts cfg evs))
   \<and> (gemini_ws s \<noteq> Some OPEN \<longrightarrow> get_prop m ''type'' = Some (JStr ''audio'') \<longrightarrow>
        on_client_message nts s (Wellformed m) =
          (s, [Send Client (JObj [(''type'', JStr ''error''),
                                  (''message'', JStr ''Gemini upstream not ready.'')])]))
   \<and> (\<not> geminiReady c \<longrightarrow> worklet_onmessage rnd nts c d = Inr [])"
proof (intro conjI impI)
  have c1: "forwards_only_after is_connected False (snd (on_connection cfg))"
    by (simp add: on_connection_def)
  have c2: "\<not> (\<exists>x\<in>set (snd (on_connection cfg)). is_connected x)"
    by (simp add: on_connection_def is_connected_def)
  have "gemini_ws (fst (on_connection cfg)) = Some OPEN \<longrightarrow> False"
    by (simp add: on_connection_def)
  from run_forwards_only_after [OF this, of nts cfg evs]
  have "forwards_only_after is_connected False (snd (run nts cfg (fst (on_connection cfg)) evs))" .
  with c1 c2 show "forwards_only_after is_connected False (snd (session_run nts cfg evs))"
    by (simp add: session_run_def case_prod_beta forwards_only_after_append)
next
  assume a: "gemini_ws s \<noteq> Some OPEN" and b: "get_prop m ''type'' = Some (JStr ''audio'')"
  obtain kvs where m: "m = JObj kvs"
    using b by (cases m) simp_all
  show "on_client_message nts s (Wellformed m) =
          (s, [Send Client (JObj [(''type'', JStr ''error''),
                                  (''message'', JStr ''Gemini upstream not ready.'')])])"
    using a b m by (simp add: on_client_message_def truthy_opt_def)
next
  assume "\<not> geminiReady c"
  then show "worklet_onmessage rnd nts c d = Inr []"
    by (simp add: worklet_onmessage_def)
qed

text \<open>An instance of the amended C1: an audio frame forwarded by the bridge
  right after the upstream socket has opened; one refused before that; and a
  client that is not ready and sends nothing.\<close>

theorem audio_needs_open_upstream_witness:
  "forwards_only_after is_connected False
        (snd (session_run decimal_text example_config
                [UpstreamOpen, ClientMessage (Wellformed audio_frame)]))
   \<and> is_audio_forward (last (snd (session_run decimal_text example_config
             [UpstreamOpen, ClientMessage (Wellformed audio_frame)])))
   \<and> gemini_ws \<lparr>client_state = OPEN, gemini_ws = Some CONNECTING\<rparr> \<noteq> Some OPEN
   \<and> get_prop audio_frame ''type'' = Some (JStr ''audio'')
   \<and> on_client_message decimal_text \<lparr>client_state = OPEN, gemini_ws = Some CONNECTING\<rparr>
        (Wellformed audio_frame) =
      (\<lparr>client_state = OPEN, gemini_ws = Some CONNECTING\<rparr>,
       [Send Client (JObj [(''type'', JStr ''error''),
                           (''message'', JStr ''Gemini upstream not ready.'')])])
   \<and> \<not> geminiReady capture_not_ready
   \<and> worklet_onmessage exact decimal_text capture_not_ready example_block = Inr []"
proof -
  have a: "gemini_ws \<lparr>client_state = OPEN, gemini_ws = Some CONNECTING\<rparr> \<noteq> Some OPEN" by simp
  have b: "get_prop audio_frame ''type'' = Some (JStr ''audio'')"
    by (simp add: audio_frame_def)
  have c: "\<not> geminiReady capture_not_ready"
    by (simp add: capture_not_ready_def)
  have d: "is_audio_forward (last (snd (session_run decimal_text example_config
             [UpstreamOpen, ClientMessage (Wellformed audio_frame)])))"
    by (simp add: session_run_def on_connection_def example_config_def audio_frame_def
      on_upstream_open_def on_client_message_def truthy_opt_def is_audio_forward_def nullish_or_def)
  show ?thesis
    using a b c d
      audio_needs_open_upstream [where nts = decimal_text and cfg = example_config
        and evs = "[UpstreamOpen, ClientMessage (Wellformed audio_frame)]"
        and s = "\<lparr>client_state = OPEN, gemini_ws = Some CONNECTING\<rparr>" and m = audio_frame
        and c = capture_not_ready and rnd = exact and d = example_block]
    by simp
qed

section \<open>Properties of the codec\<close>

declare bytes_loop.simps [simp del] view_loop.simps [simp del] pack_loop.simps [simp del]
  chunk_loop.simps [simp del] float_loop.simps [simp del] direct_loop.simps [simp del]
  window_loop.simps [simp del] resample_loop.simps [simp del]

lemma take_Suc_update: "i < length xs \<Longrightarrow> take (Suc i) (xs[i := v]) = take i xs @ [v]"
  by (simp add: take_Suc_conv_app_nth)

lemma bytes_loop_eq:
  "length bytes = length binary \<Longrightarrow>
   bytes_loop binary i bytes = take i bytes @ map word_of_nat (drop i binary)"
proof (induction binary i bytes rule: bytes_loop.induct)
  case (1 binary i bytes)
  show ?case
  proof (cases "i < length binary")
    case True
    then have "bytes_loop binary i bytes =
        bytes_loop binary (i + 1) (bytes[i := word_of_nat (binary ! i)])"
      by (subst bytes_loop.simps) simp
    also have "\<dots> = take (i + 1) (bytes[i := word_of_nat (binary ! i)])
                    @ map word_of_nat (drop (i + 1) binary)"
      using True 1 by simp
    also have "\<dots> = take i bytes @ map word_of_nat (drop i binary)"
      using True 1(2) by (simp add: take_Suc_update Cons_nth_drop_Suc [symmetric])
    finally show ?thesis .
  next
    case False
    then show ?thesis using 1(2) by (subst bytes_loop.simps) simp
  qed
qed

lemma bytes_loop_all:
  "bytes_loop binary 0 (replicate (length binary) 0) = map word_of_nat binary"
  by (simp add: bytes_loop_eq)

lemma view_loop_eq:
  "2 * length result \<le> length view \<Longrightarrow>
   view_loop view i result = Inr (take i result @ map (int16_at view) [i..<length result])"
proof (induction view i result rule: view_loop.induct)
  case (1 view i result)
  show ?case
  proof (cases "i < length result")
    case True
    then have g: "getInt16 view (i * 2) = Inr (int16_at view i)"
      using 1(2) by (simp add: getInt16_def int16_at_def mult.commute)
    have "view_loop view i result = view_loop view (i + 1) (result[i := int16_at view i])"
      using True g by (subst view_loop.simps) simp
    also have "\<dots> = Inr (take (i + 1) (result[i := int16_at view i])
                          @ map (int16_at view) [i + 1..<length result])"
      using True g 1 by simp
    also have "\<dots> = Inr (take i result @ map (int16_at view) [i..<length result])"
      using True by (simp add: take_Suc_update upt_conv_Cons)
    finally show ?thesis .
  next
    case False
    then show ?thesis by (subst view_loop.simps) simp
  qed
qed

lemma js_trunc_half: "js_trunc (real n / 2) = int (n div 2)"
proof -
  have "\<lfloor>real n / 2\<rfloor> = int (n div 2)"
    by (simp add: floor_divide_of_nat_eq [of n 2, simplified])
  then show ?thesis by (simp add: js_trunc_def)
qed

lemma new_Int16Array_half:
  "new_Int16Array (real n / 2) = Inr (replicate (n div 2) 0)"
  by (simp add: new_Int16Array_def js_trunc_half)

lemma decode_total:
  assumes "atob base64 = Inr binary"
  shows "decodeBase64ToInt16 base64 =
           Inr (map (int16_at (map word_of_nat binary)) [0..<length binary div 2])"
  using assms
  by (simp add: decodeBase64ToInt16_def bytes_loop_all new_Int16Array_half view_loop_eq)

lemma length_concat_int16_bytes [simp]:
  "length (concat (map int16_bytes data)) = 2 * length data"
  by (induction data) (simp_all add: int16_bytes_def)

lemma take_two_more:
  "2 * i + 2 \<le> length xs \<Longrightarrow>
   take (2 * i + 2) (xs[2 * i := a, 2 * i + 1 := b]) = take (2 * i) xs @ [a, b]"
proof -
  assume h: "2 * i + 2 \<le> length xs"
  have "take (2 * i + 2) (xs[2 * i := a, 2 * i + 1 := b])
        = take (Suc (2 * i + 1)) ((xs[2 * i := a])[2 * i + 1 := b])" by simp
  also have "\<dots> = take (2 * i + 1) (xs[2 * i := a]) @ [b]"
    using h by (subst take_Suc_update) simp_all
  also have "take (2 * i + 1) (xs[2 * i := a]) = take (2 * i) xs @ [a]"
    using h take_Suc_update [of "2 * i" xs a] by simp
  finally show ?thesis by simp
qed

lemma pack_loop_eq:
  "length view = 2 * length data \<Longrightarrow> i \<le> length data \<Longrightarrow>
   pack_loop data i view = Inr (take (2 * i) view @ concat (map int16_bytes (drop i data)))"
proof (induction data i view rule: pack_loop.induct)
  case (1 data i view)
  show ?case
  proof (cases "i < length data")
    case True
    let ?v = "view[2 * i := ucast (data ! i), 2 * i + 1 := ucast (drop_bit 8 (data ! i))]"
    have s: "setInt16 view (i * 2) (data ! i) = Inr ?v"
      using True 1(2) by (simp add: setInt16_def mult.commute)
    have "pack_loop data i view = pack_loop data (i + 1) ?v"
      using True s by (subst pack_loop.simps) simp
    also have "\<dots> = Inr (take (2 * (i + 1)) ?v @ concat (map int16_bytes (drop (i + 1) data)))"
      using True s 1 by simp
    also have "take (2 * (i + 1)) ?v = take (2 * i) view @ int16_bytes (data ! i)"
      using True 1(2) take_two_more [of i view] by (simp add: int16_bytes_def)
    finally show ?thesis
      using True by (simp add: Cons_nth_drop_Suc [symmetric])
  next
    case False
    then show ?thesis using 1(2,3) by (subst pack_loop.simps) simp
  qed
qed

lemma pack_loop_all:
  "pack_loop data 0 (replicate (length data * 2) 0) = Inr (concat (map int16_bytes data))"
  by (simp add: pack_loop_eq)

lemma chunk_loop_eq:
  "chunk_loop bytes i binary = binary @ map unat (drop i bytes)"
proof (induction bytes i binary rule: chunk_loop.induct)
  case (1 bytes i binary)
  show ?case
  proof (cases "i < length bytes")
    case True
    have "chunk_loop bytes i binary =
            chunk_loop bytes (i + 0x8000) (binary @ map unat (take 0x8000 (drop i bytes)))"
      using True by (subst chunk_loop.simps) simp
    also have "\<dots> = (binary @ map unat (take 0x8000 (drop i bytes)))
                      @ map unat (drop (i + 0x8000) bytes)"
      using True 1 by simp
    also have "\<dots> = binary @ map unat (take 0x8000 (drop i bytes) @ drop 0x8000 (drop i bytes))"
      by (simp add: add.commute)
    finally show ?thesis by (simp only: append_take_drop_id)
  next
    case False
    then show ?thesis by (subst chunk_loop.simps) simp
  qed
qed

lemma low_byte: "ucast (push_bit 8 (ucast (h :: 8 word)) OR (ucast (l :: 8 word)) :: 16 word) = l"
  by (rule bit_word_eqI) (auto simp: bit_simps)

lemma high_byte:
  "ucast (drop_bit 8 (push_bit 8 (ucast (h :: 8 word)) OR (ucast (l :: 8 word)) :: 16 word)) = h"
  by (rule bit_word_eqI) (auto simp: bit_simps dest: bit_imp_le_length)

lemma int16_bytes_at:
  "int16_bytes (int16_at view k) = [view ! (2 * k), view ! (2 * k + 1)]"
  by (simp only: int16_bytes_def int16_at_def low_byte high_byte)

lemma pairs_rebuild:
  "length xs = 2 * n \<Longrightarrow> concat (map (\<lambda>k. [xs ! (2 * k), xs ! (2 * k + 1)]) [0..<n]) = xs"
proof (induction n arbitrary: xs rule: less_induct)
  case (less n)
  show ?case
  proof (cases n)
    case 0
    with less.prems show ?thesis by simp
  next
    case (Suc m)
    with less.prems obtain a b ys where xs: "xs = a # b # ys" and ys: "length ys = 2 * m"
      by (cases xs; cases "tl xs") auto
    have "[0..<n] = 0 # map Suc [0..<m]"
      using Suc by (simp add: upt_conv_Cons map_Suc_upt del: upt_Suc)
    then have "concat (map (\<lambda>k. [xs ! (2 * k), xs ! (2 * k + 1)]) [0..<n])
          = [a, b] @ concat (map (\<lambda>k. [ys ! (2 * k), ys ! (2 * k + 1)]) [0..<m])"
      using xs by (simp add: comp_def)
    also have "\<dots> = xs"
      using less.IH [of m ys] Suc ys xs by simp
    finally show ?thesis .
  qed
qed

lemma repack:
  assumes "length view = 2 * n"
  shows "concat (map int16_bytes (map (int16_at view) [0..<n])) = view"
proof -
  have "concat (map int16_bytes (map (int16_at view) [0..<n]))
        = concat (map (\<lambda>k. [view ! (2 * k), view ! (2 * k + 1)]) [0..<n])"
    by (simp add: comp_def int16_bytes_at)
  then show ?thesis using pairs_rebuild [OF assms] by simp
qed

lemma unat_word_of_nat_byte: "c < 256 \<Longrightarrow> unat (word_of_nat c :: 8 word) = c"
  by (simp add: unat_of_nat)

lemma encode_of_pcm:
  assumes "length binary = 2 * n" and "\<forall>c \<in> set binary. c < 256"
  shows "int16ToBase64 (map (int16_at (map word_of_nat binary)) [0..<n]) = btoa binary"
proof -
  let ?view = "map word_of_nat binary :: 8 word list"
  let ?data = "map (int16_at ?view) [0..<n]"
  have "length ?view = 2 * n" using assms(1) by simp
  from repack [OF this]
  have "pack_loop ?data 0 (replicate (length ?data * 2) 0) = Inr ?view"
    by (simp only: pack_loop_all)
  moreover have "map unat ?view = binary"
    using assms(2) by (simp add: map_idI unat_word_of_nat_byte)
  ultimately show ?thesis
    by (simp add: int16ToBase64_def chunk_loop_eq)
qed

lemma encode_bytes_split:
  "encode_bytes bs = map b64_char (sextets bs) @ replicate (padding bs) CHR ''=''"
  by (induction bs rule: encode_bytes.induct) (simp_all add: numeral_2_eq_2)

lemma sextets_bound: "\<forall>c \<in> set bs. c < 256 \<Longrightarrow> \<forall>s \<in> set (sextets bs). s < 64"
  by (induction bs rule: sextets.induct) auto

lemma padding_le: "padding bs \<le> 2"
  by (induction bs rule: padding.induct) simp_all

lemma sextets_length: "(length (sextets bs) + padding bs) mod 4 = 0"
  by (induction bs rule: sextets.induct) simp_all

lemma sextets_length_not_1: "length (sextets bs) mod 4 \<noteq> 1"
  by (induction bs rule: sextets.induct) simp_all

lemma sextet_arith:
  "b < 256 \<Longrightarrow> (m * 16 + b div 16) div 16 = (m::nat)"
  "b < 256 \<Longrightarrow> (m * 16 + b div 16) mod 16 = (b::nat) div 16"
  "c < 256 \<Longrightarrow> (m * 4 + c div 64) div 4 = (m::nat)"
  "c < 256 \<Longrightarrow> (m * 4 + c div 64) mod 4 = (c::nat) div 64"
  by simp_all

lemma decode_sextets_inv:
  "\<forall>c \<in> set bs. c < 256 \<Longrightarrow> decode_sextets (sextets bs) = bs"
proof (induction bs rule: sextets.induct)
  case (1 a b c rest)
  then have "a < 256" "b < 256" "c < 256" by simp_all
  then have "a div 4 * 4 + (a mod 4 * 16 + b div 16) div 16 = a"
    "(a mod 4 * 16 + b div 16) mod 16 * 16 + (b mod 16 * 4 + c div 64) div 4 = b"
    "(b mod 16 * 4 + c div 64) mod 4 * 64 + c mod 64 = c"
    by (simp_all only: sextet_arith div_mult_mod_eq)
  with 1 show ?case by simp
next
  case (2 a b)
  then have "a < 256" "b < 256" by simp_all
  then have "a div 4 * 4 + (a mod 4 * 16 + b div 16) div 16 = a"
    "(a mod 4 * 16 + b div 16) mod 16 * 16 + (b mod 16 * 4) div 4 = b"
    by (simp_all only: sextet_arith div_mult_mod_eq nonzero_mult_div_cancel_right)
  then show ?case by simp
next
  case (3 a)
  have "a div 4 * 4 + (a mod 4 * 16) div 16 = a" by simp
  then show ?case by simp
next
  case 4
  then show ?case by simp
qed

lemma b64_index_char: "n < 64 \<Longrightarrow> b64_index (b64_char n) = Some n"
  by (auto simp: b64_index_def b64_char_def Let_def)

lemma b64_char_not_pad: "n < 64 \<Longrightarrow> b64_char n \<noteq> CHR ''=''"
proof
  assume "n < 64" and "b64_char n = CHR ''=''"
  then have "b64_index (CHR ''='') = Some n" using b64_index_char by metis
  then show False by (simp add: b64_index_def)
qed

lemma b64_char_not_space: "n < 64 \<Longrightarrow> \<not> is_ascii_whitespace (b64_char n)"
  by (auto simp: is_ascii_whitespace_def b64_char_def)

lemma pad_not_space: "\<not> is_ascii_whitespace CHR ''=''"
  by (simp add: is_ascii_whitespace_def)

lemma pad_no_index: "b64_index CHR ''='' = None"
  by (simp add: b64_index_def)

lemma strip_padding_encoded:
  assumes "\<forall>s \<in> set ss. s < 64" and "k \<le> 2"
  shows "strip_padding (map b64_char ss @ replicate k CHR ''='') = map b64_char ss"
proof -
  have last_ok: "last (map b64_char ss) \<noteq> CHR ''=''" if "ss \<noteq> []"
    using that assms(1) by (simp add: last_map b64_char_not_pad)
  consider "k = 0" | "k = 1" | "k = 2" using assms(2) by linarith
  then show ?thesis
  proof cases
    case 1
    then show ?thesis using last_ok by (cases "ss = []") (simp_all add: strip_padding_def)
  next
    case 2
    then show ?thesis using last_ok
      by (cases "ss = []") (simp_all add: strip_padding_def butlast_append)
  next
    case 3
    then have r: "replicate k CHR ''='' = [CHR ''='', CHR ''='']"
      by (simp add: numeral_2_eq_2)
    have "butlast (butlast (map b64_char ss @ [CHR ''='', CHR ''=''])) = map b64_char ss"
      by (simp add: butlast_append)
    moreover have "last (butlast (map b64_char ss @ [CHR ''='', CHR ''=''])) = CHR ''=''"
      by (simp add: butlast_append)
    ultimately show ?thesis by (simp add: strip_padding_def r)
  qed
qed

lemma atob_encode_bytes:
  assumes "\<forall>c \<in> set bs. c < 256"
  shows "atob (encode_bytes bs) = Inr bs"
proof -
  let ?ss = "sextets bs"
  let ?k = "padding bs"
  have b: "\<forall>s \<in> set ?ss. s < 64" using sextets_bound [OF assms] .
  have f: "filter (\<lambda>c. \<not> is_ascii_whitespace c) (encode_bytes bs) = encode_bytes bs"
    using b by (simp add: encode_bytes_split filter_id_conv b64_char_not_space pad_not_space)
  have l: "length (encode_bytes bs) mod 4 = 0"
    using sextets_length [of bs] by (simp add: encode_bytes_split)
  have s: "strip_padding (encode_bytes bs) = map b64_char ?ss"
    using strip_padding_encoded [OF b padding_le] by (simp add: encode_bytes_split)
  have n1: "length (map b64_char ?ss) mod 4 \<noteq> 1"
    using sextets_length_not_1 [of bs] by simp
  have ix: "\<not> (\<exists>c \<in> set (map b64_char ?ss). b64_index c = None)"
    using b by (auto simp: b64_index_char)
  have m: "map (\<lambda>c. the (b64_index c)) (map b64_char ?ss) = ?ss"
    using b by (simp add: map_idI b64_index_char)
  show ?thesis
    unfolding atob_def Let_def f
    using l s n1 ix m decode_sextets_inv [OF assms] by simp
qed

lemma btoa_bytes: "\<forall>c \<in> set bs. c < 256 \<Longrightarrow> btoa bs = Inr (encode_bytes bs)"
  by (auto simp: btoa_def)

subsection \<open>The round trip\<close>

lemma int16ToBase64_eq:
  "int16ToBase64 data = btoa (map unat (concat (map int16_bytes data)))"
  by (simp add: int16ToBase64_def pack_loop_all chunk_loop_eq)

text \<open>Claim C3. A valid base64 text of \<open>2n\<close> bytes is the RFC 4648 encoding of
  these bytes. For every sequence of an even number of bytes, \<^verbatim>\<open>atob\<close> decodes its
  encoding to the bytes, and decoding the encoding to samples and encoding the
  samples again gives the identical text.\<close>

theorem base64_pcm_roundtrip:
  assumes "\<forall>c \<in> set binary. c < 256" and "even (length binary)"
  shows "atob (encode_bytes binary) = Inr binary
       \<and> decode_then_encode (encode_bytes binary) = Inr (encode_bytes binary)"
proof -
  obtain n where n: "length binary = 2 * n" using assms(2) by (elim evenE)
  have a: "atob (encode_bytes binary) = Inr binary"
    using atob_encode_bytes [OF assms(1)] .
  have "decodeBase64ToInt16 (encode_bytes binary) =
          Inr (map (int16_at (map word_of_nat binary)) [0..<n])"
    using decode_total [OF a] n by simp
  moreover have "int16ToBase64 (map (int16_at (map word_of_nat binary)) [0..<n]) = btoa binary"
    using encode_of_pcm [OF n assms(1)] .
  ultimately show ?thesis
    using a btoa_bytes [OF assms(1)] by (simp add: decode_then_encode_def)
qed

text \<open>An instance of C3: the four bytes \<^verbatim>\<open>ABCD\<close>, two samples.\<close>

theorem base64_pcm_roundtrip_witness:
  "(65::nat) < 256 \<and> (66::nat) < 256 \<and> (67::nat) < 256 \<and> (68::nat) < 256
   \<and> even (length [65, 66, 67, 68 :: nat])
   \<and> encode_bytes [65, 66, 67, 68] = ''QUJDRA==''
   \<and> decodeBase64ToInt16 ''QUJDRA=='' = Inr [0x4241, 0x4443]
   \<and> decode_then_encode ''QUJDRA=='' = Inr ''QUJDRA==''"
proof -
  have a: "\<forall>c \<in> set [65, 66, 67, 68 :: nat]. c < 256" by simp
  have b: "even (length [65, 66, 67, 68 :: nat])" by simp
  have c: "encode_bytes [65, 66, 67, 68] = ''QUJDRA==''" by code_simp
  have d: "decodeBase64ToInt16 ''QUJDRA=='' = Inr [0x4241, 0x4443]" by code_simp
  show ?thesis
    using b c d base64_pcm_roundtrip [OF a b] by simp
qed

text \<open>\<^verbatim>\<open>atob\<close> also accepts texts that no encoder produces (here one without its
  padding); the round trip then gives the encoder's text, not the input.\<close>

lemma noncanonical_payload:
  "atob ''QUI'' = Inr [65, 66] \<and> decode_then_encode ''QUI'' = Inr ''QUI=''"
proof -
  have a: "atob ''QUI'' = Inr [65, 66]" by code_simp
  have b: "decodeBase64ToInt16 ''QUI'' = Inr [0x4241]" by code_simp
  have c: "map unat (concat (map int16_bytes [0x4241])) = [65, 66]"
    by (simp add: int16_bytes_def)
  have d: "btoa [65, 66] = Inr ''QUI=''" by code_simp
  show ?thesis
    using c d by (simp add: a b decode_then_encode_def int16ToBase64_eq)
qed

subsection \<open>Payloads of an odd number of bytes\<close>

text \<open>Claim C10 as stated fails: a payload of three bytes is decoded to one
  sample, the third byte is dropped, and its playback is scheduled without an
  error.\<close>

theorem odd_payload_counterexample:
  "atob ''QUJD'' = Inr [65, 66, 67]
   \<and> odd (length [65, 66, 67 :: nat])
   \<and> decodeBase64ToInt16 ''QUJD'' = Inr [0x4241]
   \<and> snd (playGeminiAudio exact example_playback ''QUJD'' (Num 0)) = None"
  by code_simp

text \<open>Claim C10, amended. \<^verbatim>\<open>decodeBase64ToInt16\<close> raises an error only when \<^verbatim>\<open>atob\<close>
  does. On every payload that \<^verbatim>\<open>atob\<close> decodes, to \<open>n\<close> bytes, it returns \<open>n div 2\<close>
  samples, sample \<open>k\<close> being read from the bytes \<open>2k\<close> and \<open>2k + 1\<close>: the length
  \<open>n / 2\<close> given to the array constructor is cut to its integer part, so the
  last byte of an odd payload is dropped and no read is out of range.\<close>

theorem decode_is_total:
  "decodeBase64ToInt16 base64 =
     (case atob base64 of
        Inl e \<Rightarrow> Inl e
      | Inr binary \<Rightarrow>
          Inr (map (int16_at (map word_of_nat binary)) [0..<length binary div 2]))"
proof (cases "atob base64")
  case (Inl e)
  then show ?thesis by (simp add: decodeBase64ToInt16_def)
next
  case (Inr binary)
  then show ?thesis using decode_total [OF Inr] by simp
qed

text \<open>An instance of the amended C10: three bytes, one sample.\<close>

theorem decode_is_total_witness:
  "atob ''QUJD'' = Inr [65, 66, 67]
   \<and> decodeBase64ToInt16 ''QUJD'' = Inr [int16_at [65, 66, 67] 0]
   \<and> int16_at [65, 66, 67] 0 = 0x4241"
proof -
  have a: "atob ''QUJD'' = Inr [65, 66, 67]" by code_simp
  have b: "int16_at [65, 66, 67] 0 = 0x4241" by code_simp
  show ?thesis using a b decode_is_total [of "''QUJD''"] by simp
qed

section \<open>Properties of the resampler\<close>

subsection \<open>Rounding\<close>

lemma fl_not_nan [simp]: "fl rnd x \<noteq> NaN"
  by (simp add: fl_def split: option.splits)

lemma fl_zero [simp]: "fl rnd 0 = Num 0"
  by (simp add: fl_def)

lemma fl_nonneg: "0 \<le> x \<Longrightarrow> fl rnd x = PInf \<or> (\<exists>y. fl rnd x = Num y \<and> 0 \<le> y)"
  by (simp add: fl_def split: option.splits)

lemma fl_nonpos: "x \<le> 0 \<Longrightarrow> fl rnd x = NInf \<or> (\<exists>y. fl rnd x = Num y \<and> y \<le> 0)"
  by (simp add: fl_def split: option.splits)

lemma fl_minus:
  "fl rnd (- x) = (case fl rnd x of Num y \<Rightarrow> Num (- y) | PInf \<Rightarrow> NInf | NInf \<Rightarrow> PInf | NaN \<Rightarrow> NaN)"
  by (simp add: fl_def split: option.splits)

subsection \<open>The loops\<close>

lemma clip_le: "clip n off \<le> n"
  by (simp add: clip_def split: number.splits)

lemma loop_cond:
  "0 \<le> i \<Longrightarrow> (num_lt (Num (of_int i)) nxt \<and> i < int n) = (nat i < clip n nxt)"
  by (cases nxt) (auto simp: clip_def less_ceiling_iff)

lemma window_loop_eq:
  "0 \<le> i \<Longrightarrow>
   window_loop rnd buffer nxt i accum count =
     (foldl (fadd rnd) accum (map ((!) buffer) [nat i..<clip (length buffer) nxt]),
      count + (clip (length buffer) nxt - nat i))"
proof (induction rnd buffer nxt i accum count rule: window_loop.induct)
  case (1 rnd buffer nxt i accum count)
  let ?c = "clip (length buffer) nxt"
  show ?case
  proof (cases "num_lt (Num (of_int i)) nxt \<and> i < int (length buffer)")
    case True
    then have lt: "nat i < ?c" using loop_cond [OF 1(2)] by simp
    have n: "nat (i + 1) = Suc (nat i)" using 1(2) by simp
    have "window_loop rnd buffer nxt i accum count =
            window_loop rnd buffer nxt (i + 1) (fadd rnd accum (buffer ! nat i)) (count + 1)"
      using True 1(2) by (subst window_loop.simps) simp
    also have "\<dots> = (foldl (fadd rnd) (fadd rnd accum (buffer ! nat i))
                        (map ((!) buffer) [nat (i + 1)..<?c]),
                       count + 1 + (?c - nat (i + 1)))"
      using True 1 by simp
    finally show ?thesis using lt by (simp add: n upt_conv_Cons)
  next
    case False
    then have ge: "\<not> nat i < ?c" using loop_cond [OF 1(2)] by simp
    have "window_loop rnd buffer nxt i accum count = (accum, count)"
      by (subst window_loop.simps) (simp only: False if_False)
    then show ?thesis using ge by simp
  qed
qed

lemma window_sum_eq:
  assumes "is_offset off"
  shows "window_sum rnd buffer nxt off =
           (foldl (fadd rnd) (Num 0)
              (map ((!) buffer) [clip (length buffer) off..<clip (length buffer) nxt]),
            clip (length buffer) nxt - clip (length buffer) off)"
proof (cases off)
  case (Num x)
  then have x: "0 \<le> x" "x \<in> \<int>" using assms by (simp_all add: is_offset_def)
  then obtain m where m: "x = of_int m" by (auto elim: Ints_cases)
  then have m0: "0 \<le> m" using x by simp
  have c: "clip (length buffer) off = min (length buffer) (nat m)"
    by (simp add: clip_def Num m)
  have "window_sum rnd buffer nxt off =
          (foldl (fadd rnd) (Num 0) (map ((!) buffer) [nat m..<clip (length buffer) nxt]),
           clip (length buffer) nxt - nat m)"
    using window_loop_eq [OF m0, of rnd buffer nxt "Num 0" 0]
    by (simp add: window_sum_def Num m)
  then show ?thesis
    using clip_le [of "length buffer" nxt] by (cases "nat m \<le> length buffer") (simp_all add: c min_def)
next
  case PInf
  then show ?thesis
    using clip_le [of "length buffer" nxt] by (simp add: window_sum_def clip_def)
qed (use assms in \<open>simp_all add: is_offset_def\<close>)

lemma filter_interval:
  "filter (\<lambda>i. a \<le> i \<and> i < b) [0..<n] = [a..<min n b]"
proof (induction n)
  case 0
  then show ?case by simp
next
  case (Suc n)
  consider "a \<le> n \<and> n < b" | "n < a" | "b \<le> n" by linarith
  then show ?case
  proof cases
    case 1
    then show ?thesis using Suc by (simp add: min_def)
  next
    case 2
    then show ?thesis using Suc by (simp add: min_def)
  next
    case 3
    then show ?thesis using Suc by (simp add: min_def)
  qed
qed

lemma upt_min: "[min n a..<min n b] = [a..<min n (b::nat)]"
  by (cases "a \<le> n") (simp_all add: min_def)

lemma real_less_ceiling: "(real i < x) = (i < nat \<lceil>x\<rceil>)"
  using less_ceiling_iff [of "int i" x] by (simp add: zless_nat_eq_int_zless)

lemma num_lt_index: "i < n \<Longrightarrow> num_lt (Num (real i)) nxt = (i < clip n nxt)"
  by (cases nxt) (simp_all add: clip_def real_less_ceiling)

lemma window_indices:
  assumes "is_offset off"
  shows "filter (\<lambda>i. num_le off (Num (real i)) \<and> num_lt (Num (real i)) nxt) [0..<n]
           = [clip n off..<clip n nxt]"
proof (cases off)
  case (Num x)
  then have x: "0 \<le> x" "x \<in> \<int>" using assms by (simp_all add: is_offset_def)
  then obtain m where m: "x = of_int m" by (auto elim: Ints_cases)
  then have m0: "0 \<le> m" using x by simp
  have lo: "num_le off (Num (real i)) = (nat m \<le> i)" for i
    using m0 by (auto simp: Num m num_le_def strict_eq_def)
  have "filter (\<lambda>i. num_le off (Num (real i)) \<and> num_lt (Num (real i)) nxt) [0..<n]
          = filter (\<lambda>i. nat m \<le> i \<and> i < clip n nxt) [0..<n]"
    by (intro filter_cong refl) (simp add: lo num_lt_index)
  also have "\<dots> = [nat m..<min n (clip n nxt)]" by (rule filter_interval)
  also have "\<dots> = [clip n off..<clip n nxt]"
    using clip_le [of n nxt] upt_min [of n "nat m" "clip n nxt"] by (simp add: clip_def Num m min_def)
  finally show ?thesis .
next
  case PInf
  then show ?thesis
    using clip_le [of n nxt] by (simp add: num_le_def strict_eq_def clip_def)
qed (use assms in \<open>simp_all add: is_offset_def\<close>)


lemma window_eq:
  assumes "is_offset (offset rnd ratio k)"
  shows "window rnd buffer ratio k =
           map ((!) buffer) [clip (length buffer) (offset rnd ratio k)..<
                             clip (length buffer) (offset rnd ratio (k + 1))]"
  using window_indices [OF assms] by (simp add: window_def)

lemma window_sum_window:
  assumes "is_offset (offset rnd ratio k)"
  shows "window_sum rnd buffer (offset rnd ratio (k + 1)) (offset rnd ratio k) =
           (float_sum rnd (window rnd buffer ratio k), length (window rnd buffer ratio k))"
  by (simp add: window_sum_eq [OF assms] window_eq [OF assms] float_sum_def)

lemma offset_is_offset:
  assumes "0 \<le> r"
  shows "is_offset (offset rnd (Num r) k)"
proof (cases "k = 0")
  case True
  then show ?thesis by (simp add: offset_def is_offset_def)
next
  case False
  have "0 \<le> real k * r" using assms by simp
  from fl_nonneg [OF this, of rnd] show ?thesis
    using False by (auto simp: offset_def is_offset_def round_def)
qed

lemma js_max_count: "js_max (Num 1) (Num (real c)) = Num (real (max 1 c))"
  by (simp add: js_max_def max_def)

lemma resample_loop_eq:
  "(\<forall>j. is_offset (offset rnd ratio j)) \<Longrightarrow> offsetBuffer = offset rnd ratio k \<Longrightarrow>
    resample_loop rnd buffer ratio k offsetBuffer result divisions =
      (take k result
         @ map (\<lambda>j. to_int16 (quantize rnd (average rnd (window rnd buffer ratio j))))
             [k..<length result],
       divisions
         @ map (\<lambda>j. (float_sum rnd (window rnd buffer ratio j),
                      Num (real (max 1 (length (window rnd buffer ratio j))))))
             [k..<length result])"
proof (induction rnd buffer ratio k offsetBuffer result divisions rule: resample_loop.induct)
  case (1 rnd buffer ratio k offsetBuffer result divisions)
  show ?case
  proof (cases "k < length result")
    case True
    let ?w = "window rnd buffer ratio k"
    let ?d = "Num (real (max 1 (length ?w)))"
    let ?v = "to_int16 (quantize rnd (average rnd ?w))"
    have nx: "offset rnd ratio (k + 1) = js_round (fmul rnd (Num (real (k + 1))) ratio)"
      by (simp add: offset_def)
    have off: "is_offset (offset rnd ratio k)" using 1(2) by simp
    have wl: "window_sum rnd buffer (offset rnd ratio (k + 1)) offsetBuffer = (float_sum rnd ?w, length ?w)"
      using window_sum_window [OF off] 1(3) by simp
    have "resample_loop rnd buffer ratio k offsetBuffer result divisions =
            resample_loop rnd buffer ratio (k + 1) (offset rnd ratio (k + 1)) (result[k := ?v])
              (divisions @ [(float_sum rnd ?w, ?d)])"
      using True wl nx [symmetric]
      by (subst resample_loop.simps) (simp add: js_max_count quantize_def average_def Let_def)
    also have "\<dots> = (take (k + 1) (result[k := ?v])
                      @ map (\<lambda>j. to_int16 (quantize rnd (average rnd (window rnd buffer ratio j))))
                          [k + 1..<length (result[k := ?v])],
                   (divisions @ [(float_sum rnd ?w, ?d)])
                      @ map (\<lambda>j. (float_sum rnd (window rnd buffer ratio j),
                                   Num (real (max 1 (length (window rnd buffer ratio j))))))
                          [k + 1..<length (result[k := ?v])])"
      using 1(1) [OF True nx refl wl [symmetric] refl refl refl 1(2) refl]
      by (simp add: js_max_count quantize_def average_def)
    also have "\<dots> = (take k result
         @ map (\<lambda>j. to_int16 (quantize rnd (average rnd (window rnd buffer ratio j))))
             [k..<length result],
       divisions
         @ map (\<lambda>j. (float_sum rnd (window rnd buffer ratio j),
                      Num (real (max 1 (length (window rnd buffer ratio j))))))
             [k..<length result])"
      using True by (simp add: take_Suc_update upt_conv_Cons)
    finally show ?thesis .
  next
    case False
    then show ?thesis by (subst resample_loop.simps) simp
  qed
qed


lemma resample_loop_nil: "resample_loop rnd buffer ratio k offsetBuffer [] divisions = ([], divisions)"
  by (subst resample_loop.simps) simp

lemma direct_loop_eq:
  "length result = length buffer \<Longrightarrow>
   direct_loop rnd buffer i result =
     take i result @ map (\<lambda>x. to_int16 (quantize rnd x)) (drop i buffer)"
proof (induction rnd buffer i result rule: direct_loop.induct)
  case (1 rnd buffer i result)
  show ?case
  proof (cases "i < length buffer")
    case True
    let ?v = "to_int16 (quantize rnd (buffer ! i))"
    have "direct_loop rnd buffer i result = direct_loop rnd buffer (i + 1) (result[i := ?v])"
      using True by (subst direct_loop.simps) (simp add: quantize_def)
    also have "\<dots> = take (i + 1) (result[i := ?v])
                      @ map (\<lambda>x. to_int16 (quantize rnd x)) (drop (i + 1) buffer)"
      using 1(1) [OF True refl] 1(2) by (simp add: quantize_def)
    also have "\<dots> = take i result @ map (\<lambda>x. to_int16 (quantize rnd x)) (drop i buffer)"
      using True 1(2) by (simp add: take_Suc_update Cons_nth_drop_Suc [symmetric])
    finally show ?thesis .
  next
    case False
    then show ?thesis using 1(2) by (subst direct_loop.simps) simp
  qed
qed

lemma js_trunc_of_int [simp]: "js_trunc (of_int n) = n"
  by (simp add: js_trunc_def)

lemma new_Int16Array_number_int:
  "new_Int16Array_number (Num (of_int n)) =
     (if n < 0 \<or> 2 ^ 53 - 1 < n then Inl RangeError else Inr (replicate (nat n) 0))"
  by (simp add: new_Int16Array_number_def new_Int16Array_def)

text \<open>The outer loop runs only for a positive ratio.\<close>

lemma resample_needs_positive_ratio:
  assumes "new_Int16Array_number (js_round (fdiv rnd (Num (real n)) ratio)) = Inr result"
    and "result \<noteq> []"
  shows "\<exists>r. ratio = Num r \<and> 0 < r"
proof (cases ratio)
  case (Num r)
  show ?thesis
  proof (cases "0 < r")
    case True
    then show ?thesis using Num by simp
  next
    case False
    show ?thesis
    proof (cases "r = 0")
      case True
      then show ?thesis
        using assms Num by (auto simp: new_Int16Array_number_def split: if_splits)
    next
      case nz: False
      then have "real n / r \<le> 0" using False by (simp add: divide_nonneg_neg divide_le_0_iff)
      from fl_nonpos [OF this, of rnd] show ?thesis
      proof
        assume "fl rnd (real n / r) = NInf"
        then show ?thesis using assms Num nz by (simp add: new_Int16Array_number_def)
      next
        assume "\<exists>y. fl rnd (real n / r) = Num y \<and> y \<le> 0"
        then obtain y where y: "fl rnd (real n / r) = Num y" "y \<le> 0" by blast
        then have "round y \<le> 0" by (simp add: round_def floor_le_iff)
        then show ?thesis
          using assms Num nz y(1) by (simp add: new_Int16Array_number_int split: if_splits)
      qed
    qed
  qed
qed (use assms in \<open>simp_all add: new_Int16Array_number_def new_Int16Array_def js_trunc_def\<close>)

lemma downsample_same_rate:
  "strict_eq rate target \<Longrightarrow>
   downsample_run rnd target buffer rate = Inr (map (\<lambda>x. to_int16 (quantize rnd x)) buffer, [])"
  by (simp add: downsample_run_def direct_loop_eq)

lemma downsample_resampled:
  assumes "\<not> strict_eq rate target"
  shows "downsample_run rnd target buffer rate =
           (case new_Int16Array_number
                   (js_round (fdiv rnd (Num (real (length buffer))) (fdiv rnd rate target))) of
              Inl e \<Rightarrow> Inl e
            | Inr zeros \<Rightarrow>
                Inr (map (\<lambda>k. to_int16 (quantize rnd
                                 (average rnd (window rnd buffer (fdiv rnd rate target) k))))
                       [0..<length zeros],
                     map (\<lambda>k. (float_sum rnd (window rnd buffer (fdiv rnd rate target) k),
                                Num (real (max 1 (length (window rnd buffer (fdiv rnd rate target) k))))))
                       [0..<length zeros]))"
proof (cases "new_Int16Array_number
                (js_round (fdiv rnd (Num (real (length buffer))) (fdiv rnd rate target)))")
  case (Inl e)
  then show ?thesis using assms by (simp add: downsample_run_def)
next
  case (Inr zeros)
  show ?thesis
  proof (cases "zeros = []")
    case True
    then show ?thesis using assms Inr by (simp add: downsample_run_def resample_loop_nil)
  next
    case False
    from resample_needs_positive_ratio [OF Inr False]
    obtain r where r: "fdiv rnd rate target = Num r" "0 < r" by blast
    then have off: "\<forall>j. is_offset (offset rnd (fdiv rnd rate target) j)"
      using offset_is_offset [of r rnd] by simp
    have z: "offset rnd (fdiv rnd rate target) 0 = Num 0" by (simp add: offset_def)
    show ?thesis
      using assms Inr resample_loop_eq [OF off z [symmetric], of buffer zeros "[]"]
      by (simp add: downsample_run_def Let_def)
  qed
qed


subsection \<open>The range of the stored values\<close>

lemma num_between:
  "num_le (Num a) v \<Longrightarrow> num_le v (Num b) \<Longrightarrow> \<exists>y. v = Num y \<and> a \<le> y \<and> y \<le> b"
  by (cases v) (auto simp: num_le_def strict_eq_def)

lemma num_above:
  "num_le (Num a) v \<Longrightarrow> v = PInf \<or> (\<exists>y. v = Num y \<and> a \<le> y)"
  by (cases v) (auto simp: num_le_def strict_eq_def)

lemma faithful_mono: "faithful rnd \<Longrightarrow> x \<le> y \<Longrightarrow> num_le (fl rnd x) (fl rnd y)"
  by (simp add: faithful_def)

lemma faithful_nat: "faithful rnd \<Longrightarrow> n \<le> 2 ^ 53 \<Longrightarrow> fl rnd (real n) = Num (real n)"
  by (simp add: faithful_def)

lemma faithful_between:
  assumes "faithful rnd" and "real a \<le> x" and "x \<le> real b" and "b \<le> 2 ^ 53"
  shows "\<exists>y. fl rnd x = Num y \<and> real a \<le> y \<and> y \<le> real b"
proof -
  have a: "a \<le> 2 ^ 53" using assms(2,3,4) by linarith
  have "num_le (Num (real a)) (fl rnd x)"
    using faithful_mono [OF assms(1,2)] faithful_nat [OF assms(1) a] by simp
  moreover have "num_le (fl rnd x) (Num (real b))"
    using faithful_mono [OF assms(1,3)] faithful_nat [OF assms(1,4)] by simp
  ultimately show ?thesis by (rule num_between)
qed

lemma faithful_between_neg:
  assumes "faithful rnd" and "- real b \<le> x" and "x \<le> 0" and "b \<le> 2 ^ 53"
  shows "\<exists>y. fl rnd x = Num y \<and> - real b \<le> y \<and> y \<le> 0"
proof -
  have "real 0 \<le> - x" "- x \<le> real b" using assms(2,3) by simp_all
  from faithful_between [OF assms(1) this assms(4)]
  obtain y where "fl rnd (- x) = Num y" "0 \<le> y" "y \<le> real b" by auto
  then show ?thesis using fl_minus [of rnd "- x"] by simp
qed

lemma clamp_unit_cases:
  "(x = NaN \<and> clamp_unit x = NaN) \<or> (\<exists>c. clamp_unit x = Num c \<and> - 1 \<le> c \<and> c \<le> 1)"
  by (cases x) (auto simp: clamp_unit_def js_min_def js_max_def)

lemma quantize_fits:
  assumes "faithful rnd"
  shows "fits16 (quantize rnd x)"
  using clamp_unit_cases [of x]
proof
  assume "x = NaN \<and> clamp_unit x = NaN"
  then have "clamp_unit x = NaN" by (rule conjunct2)
  then show ?thesis by (simp add: quantize_def scale16_def fits16_def)
next
  assume "\<exists>c. clamp_unit x = Num c \<and> - 1 \<le> c \<and> c \<le> 1"
  then obtain c where c: "clamp_unit x = Num c" "- 1 \<le> c" "c \<le> 1" by blast
  show ?thesis
  proof (cases "c < 0")
    case True
    have "- real 32768 \<le> c * 32768" "c * 32768 \<le> 0" using c(2) True by simp_all
    from faithful_between_neg [OF assms this]
    obtain y where "fl rnd (c * 32768) = Num y" "- 32768 \<le> y" "y \<le> 0" by auto
    then show ?thesis using c(1) True by (simp add: quantize_def scale16_def fits16_def)
  next
    case False
    have "real 0 \<le> c * 32767" "c * 32767 \<le> real 32767" using c(3) False by simp_all
    from faithful_between [OF assms this]
    obtain y where "fl rnd (c * 32767) = Num y" "0 \<le> y" "y \<le> 32767" by auto
    then show ?thesis using c(1) False by (simp add: quantize_def scale16_def fits16_def)
  qed
qed

lemma js_trunc_range:
  "- 32768 \<le> x \<Longrightarrow> x \<le> 32767 \<Longrightarrow> - 32768 \<le> js_trunc x \<and> js_trunc x \<le> 32767"
  by (auto simp: js_trunc_def le_floor_iff floor_le_iff ceiling_le_iff le_ceiling_iff)

lemma int_part_range: "fits16 v \<Longrightarrow> - 32768 \<le> int_part v \<and> int_part v \<le> 32767"
  using js_trunc_range by (cases v) (simp_all add: fits16_def int_part_def)

lemma sint_to_int16: "fits16 v \<Longrightarrow> sint (to_int16 v) = int_part v"
proof (cases v)
  case (Num y)
  assume "fits16 v"
  then have "signed_take_bit 15 (js_trunc y) = js_trunc y"
    using int_part_range [of v] Num by (intro signed_take_bit_int_eq_self) (simp_all add: int_part_def)
  then show ?thesis
    by (simp add: Num int_part_def sint_sbintrunc')
qed (simp_all add: int_part_def)

lemma faithful_exact: "faithful exact"
proof -
  have "fl exact x = Num x" for x
    by (simp add: fl_def exact_def)
  then show ?thesis
    by (simp add: faithful_def num_le_def strict_eq_def) linarith
qed


subsection \<open>The output of the resampler\<close>

text \<open>Claim C2, amended. The arithmetic is that of doubles: every operation gives
  its exact result rounded, by a rounding that keeps the order and leaves the
  natural numbers up to \<open>2 ^ 53\<close> as they are. For a block of \<open>n\<close> samples (\<open>n\<close>
  below \<open>2 ^ 53\<close>) at a rate \<open>R\<close> above the target rate \<open>T\<close>, with \<open>T\<close> positive,
  the resampler returns an array, and the number of its samples is
  \<^verbatim>\<open>Math.round(n / (R / T))\<close> as the doubles compute it. Sample \<open>k\<close> comes from the
  average of its window, which is the sum of the samples of the window divided
  by their number (by 1 when the window is empty): the average is clamped to
  \<open>[-1, 1]\<close> and scaled by 32768 (negative) or 32767, the result lies in
  \<open>[-32768, 32767]\<close> or is NaN, and the sample is its integer part (towards zero,
  not to the nearest integer), 0 for NaN.\<close>

theorem resampler_output:
  assumes "faithful rnd" and "0 < target" and "target < rate" and "length buffer < 2 ^ 53"
  shows "\<exists>result. downsampleTo16k rnd (Num target) buffer (Num rate) = Inr result
           \<and> js_round (fdiv rnd (Num (real (length buffer))) (fdiv rnd (Num rate) (Num target)))
               = Num (real (length result))
           \<and> (\<forall>k < length result.
                 sint (result ! k)
                   = int_part (quantize rnd (average rnd
                        (window rnd buffer (fdiv rnd (Num rate) (Num target)) k)))
                 \<and> fits16 (quantize rnd (average rnd
                        (window rnd buffer (fdiv rnd (Num rate) (Num target)) k)))
                 \<and> - 32768 \<le> sint (result ! k) \<and> sint (result ! k) \<le> 32767)"
proof -
  define ratio where "ratio = fdiv rnd (Num rate) (Num target)"
  define n where "n = length buffer"
  define sample where
    "sample = (\<lambda>k. to_int16 (quantize rnd (average rnd (window rnd buffer ratio k))))"
  have ne: "\<not> strict_eq (Num rate) (Num target)"
    using assms(3) by (simp add: strict_eq_def)
  have ratio: "ratio = fl rnd (rate / target)" using assms(2) by (simp add: ratio_def)
  have "real 1 \<le> rate / target" using assms(2,3) by simp
  then have "num_le (Num 1) (fl rnd (rate / target))"
    using faithful_mono [OF assms(1), of "real 1" "rate / target"]
      faithful_nat [OF assms(1), of 1] by simp
  from num_above [OF this]
  have len: "\<exists>m. new_Int16Array_number (js_round (fdiv rnd (Num (real n)) ratio))
                  = Inr (replicate m 0)
               \<and> js_round (fdiv rnd (Num (real n)) ratio) = Num (real m)"
  proof
    assume "fl rnd (rate / target) = PInf"
    then have "js_round (fdiv rnd (Num (real n)) ratio) = Num (real 0)"
      by (simp add: ratio)
    moreover have "new_Int16Array_number (Num (real 0)) = Inr (replicate 0 0)"
      using new_Int16Array_number_int [of 0] by simp
    ultimately show ?thesis by metis
  next
    assume "\<exists>y. fl rnd (rate / target) = Num y \<and> 1 \<le> y"
    then obtain r where r: "fl rnd (rate / target) = Num r" "1 \<le> r" by blast
    have q: "fdiv rnd (Num (real n)) ratio = fl rnd (real n / r)"
      using r by (simp add: ratio)
    have "real n * 1 \<le> real n * r"
      using r(2) by (intro mult_left_mono) simp_all
    then have "real 0 \<le> real n / r" "real n / r \<le> real n"
      using r(2) by (simp_all add: divide_le_eq)
    from faithful_between [OF assms(1) this]
    obtain v where v: "fl rnd (real n / r) = Num v" "0 \<le> v" "v \<le> real n"
      using assms(4) by (auto simp: n_def)
    have m0: "0 \<le> round v" using v(2) by (simp add: round_def)
    have "round v \<le> round (real n)" using v(3) by (rule round_mono)
    then have m1: "round v \<le> int n" by simp
    then have m2: "\<not> 2 ^ 53 - 1 < round v" using assms(4) by (simp add: n_def)
    have "js_round (fdiv rnd (Num (real n)) ratio) = Num (real (nat (round v)))"
      using m0 by (simp add: q v(1))
    moreover have "new_Int16Array_number (Num (real (nat (round v)))) = Inr (replicate (nat (round v)) 0)"
      using new_Int16Array_number_int [of "round v"] m0 m2 by simp
    ultimately show ?thesis by metis
  qed
  then obtain m where m: "new_Int16Array_number (js_round (fdiv rnd (Num (real n)) ratio))
                  = Inr (replicate m 0)"
               "js_round (fdiv rnd (Num (real n)) ratio) = Num (real m)" by blast
  have d: "downsampleTo16k rnd (Num target) buffer (Num rate) = Inr (map sample [0..<m])"
    using m(1) unfolding downsampleTo16k_def downsample_resampled [OF ne] ratio_def n_def sample_def
    by simp
  have each: "\<forall>k < length (map sample [0..<m]).
            sint (map sample [0..<m] ! k)
                   = int_part (quantize rnd (average rnd (window rnd buffer ratio k)))
                 \<and> fits16 (quantize rnd (average rnd (window rnd buffer ratio k)))
                 \<and> - 32768 \<le> sint (map sample [0..<m] ! k) \<and> sint (map sample [0..<m] ! k) \<le> 32767"
  proof (intro allI impI)
    fix k assume k: "k < length (map sample [0..<m])"
    have f: "fits16 (quantize rnd (average rnd (window rnd buffer ratio k)))"
      using quantize_fits [OF assms(1)] .
    show "sint (map sample [0..<m] ! k)
                   = int_part (quantize rnd (average rnd (window rnd buffer ratio k)))
                 \<and> fits16 (quantize rnd (average rnd (window rnd buffer ratio k)))
                 \<and> - 32768 \<le> sint (map sample [0..<m] ! k) \<and> sint (map sample [0..<m] ! k) \<le> 32767"
      using k f sint_to_int16 [OF f] int_part_range [OF f] by (simp add: sample_def)
  qed
  have l: "js_round (fdiv rnd (Num (real n)) ratio) = Num (real (length (map sample [0..<m])))"
    using m(2) by simp
  from d l each have "downsampleTo16k rnd (Num target) buffer (Num rate) = Inr (map sample [0..<m])
      \<and> js_round (fdiv rnd (Num (real n)) ratio) = Num (real (length (map sample [0..<m])))
      \<and> (\<forall>k < length (map sample [0..<m]).
            sint (map sample [0..<m] ! k)
                   = int_part (quantize rnd (average rnd (window rnd buffer ratio k)))
                 \<and> fits16 (quantize rnd (average rnd (window rnd buffer ratio k)))
                 \<and> - 32768 \<le> sint (map sample [0..<m] ! k) \<and> sint (map sample [0..<m] ! k) \<le> 32767)"
    by blast
  then show ?thesis
    unfolding ratio_def n_def by (rule exI)
qed

text \<open>An instance of the amended C2: six samples at 32 kHz give three samples at
  16 kHz.\<close>

theorem resampler_output_witness:
  "map_sum id (map sint) (downsampleTo16k exact (Num 16000) example_samples (Num 32000))
     = Inr [- 4096, 32767, 4095]
   \<and> js_round (fdiv exact (Num (real (length example_samples))) (fdiv exact (Num 32000) (Num 16000)))
       = Num 3
   \<and> window exact example_samples (fdiv exact (Num 32000) (Num 16000)) 2 = [Num (1 / 8), Num (1 / 8)]
   \<and> average exact [Num (1 / 8), Num (1 / 8)] = Num (1 / 8)
   \<and> quantize exact (Num (1 / 8)) = Num (32767 / 8)
   \<and> int_part (Num (32767 / 8)) = 4095"
proof -
  have a: "(0::real) < 16000" and b: "(16000::real) < 32000" by simp_all
  have l: "length example_samples < 2 ^ 53" by (simp add: example_samples_def)
  have c: "map_sum id (map sint) (downsampleTo16k exact (Num 16000) example_samples (Num 32000))
     = Inr [- 4096, 32767, 4095]"
    by code_simp
  have d: "js_round (fdiv exact (Num (real (length example_samples))) (fdiv exact (Num 32000) (Num 16000)))
       = Num 3"
    by code_simp
  have e: "window exact example_samples (fdiv exact (Num 32000) (Num 16000)) 2 = [Num (1 / 8), Num (1 / 8)]"
    by code_simp
  have f: "average exact [Num (1 / 8), Num (1 / 8)] = Num (1 / 8)"
    by code_simp
  have g: "quantize exact (Num (1 / 8)) = Num (32767 / 8)"
    by code_simp
  have h: "int_part (Num (32767 / 8)) = 4095"
    by code_simp
  show ?thesis
    using c d e f g h resampler_output [OF faithful_exact a b l] by simp
qed

text \<open>Claim C2 as stated fails: the stored sample is not the scaled average rounded
  to the nearest integer. Two samples of 1/4 at twice the target rate average to
  1/4, which scales to 8191.75; the array stores 8191, and the nearest integer
  is 8192. (Every value here is a double, so the platform rounds nowhere.)\<close>

theorem resampler_rounding_counterexample:
  "downsampleTo16k exact (Num 16000) [Num (1 / 4), Num (1 / 4)] (Num 32000) = Inr [8191]
   \<and> average exact (window exact [Num (1 / 4), Num (1 / 4)] (fdiv exact (Num 32000) (Num 16000)) 0)
       = Num (1 / 4)
   \<and> quantize exact (Num (1 / 4)) = Num (32767 / 4)
   \<and> nearest16 exact (Num (1 / 4)) = 8192"
  by code_simp


subsection \<open>The divisions of the averages\<close>

lemma quantize_zero: "quantize rnd (Num 0) = Num 0"
  by (simp add: quantize_def clamp_unit_def js_min_def js_max_def scale16_def)

text \<open>Claim C9. Whenever the resampler returns an array: every division by which it
  averaged a window has a divisor of at least 1, so none is a division by zero.
  At the target rate it divides nothing and every sample is the quantised input
  sample. Otherwise there is one division for each output sample: the sum of the
  window divided by the maximum of 1 and the number of its samples; the sample is
  the quantised quotient, and for an empty window the quotient is 0 and the
  sample is 0. A quantised value is the clamped value scaled by 32768 (negative)
  or 32767: under a rounding that keeps the order and leaves the natural
  numbers as they are it lies in \<open>[-32768, 32767]\<close> (or is NaN, which is stored
  as 0), so storing it in the 16-bit array does not wrap around.\<close>

theorem resampler_safe:
  assumes "faithful rnd"
    and "downsample_run rnd target buffer rate = Inr (result, divisions)"
  shows "(\<forall>d \<in> set divisions. num_le (Num 1) (snd d))
       \<and> (strict_eq rate target \<longrightarrow>
            divisions = [] \<and> result = map (\<lambda>x. to_int16 (quantize rnd x)) buffer)
       \<and> (\<not> strict_eq rate target \<longrightarrow>
            length divisions = length result
            \<and> (\<forall>k < length result.
                  divisions ! k
                    = (float_sum rnd (window rnd buffer (fdiv rnd rate target) k),
                       Num (real (max 1 (length (window rnd buffer (fdiv rnd rate target) k)))))
                  \<and> result ! k
                      = to_int16 (quantize rnd (fdiv rnd (fst (divisions ! k)) (snd (divisions ! k))))
                  \<and> (window rnd buffer (fdiv rnd rate target) k = [] \<longrightarrow>
                       fdiv rnd (fst (divisions ! k)) (snd (divisions ! k)) = Num 0
                       \<and> result ! k = 0)))
       \<and> (\<forall>x. fits16 (quantize rnd x)
              \<and> sint (to_int16 (quantize rnd x)) = int_part (quantize rnd x)
              \<and> - 32768 \<le> int_part (quantize rnd x) \<and> int_part (quantize rnd x) \<le> 32767)"
proof -
  define ratio where "ratio = fdiv rnd rate target"
  define w where "w = window rnd buffer ratio"
  have fits: "fits16 (quantize rnd x)
              \<and> sint (to_int16 (quantize rnd x)) = int_part (quantize rnd x)
              \<and> - 32768 \<le> int_part (quantize rnd x) \<and> int_part (quantize rnd x) \<le> 32767" for x
    using quantize_fits [OF assms(1), of x] sint_to_int16 [of "quantize rnd x"]
      int_part_range [of "quantize rnd x"] by simp
  show ?thesis
  proof (cases "strict_eq rate target")
    case True
    then show ?thesis
      using assms(2) fits by (simp add: downsample_same_rate)
  next
    case False
    have "\<exists>m. result = map (\<lambda>k. to_int16 (quantize rnd (average rnd (w k)))) [0..<m]
            \<and> divisions = map (\<lambda>k. (float_sum rnd (w k), Num (real (max 1 (length (w k))))))
                            [0..<m]"
    proof (cases "new_Int16Array_number
                    (js_round (fdiv rnd (Num (real (length buffer))) (fdiv rnd rate target)))")
      case (Inl e)
      then show ?thesis using assms(2) by (simp add: downsample_resampled [OF False])
    next
      case (Inr zeros)
      then have "result = map (\<lambda>k. to_int16 (quantize rnd (average rnd (w k)))) [0..<length zeros]
            \<and> divisions = map (\<lambda>k. (float_sum rnd (w k), Num (real (max 1 (length (w k))))))
                            [0..<length zeros]"
        using assms(2) by (simp add: downsample_resampled [OF False] w_def ratio_def)
      then show ?thesis by (rule exI)
    qed
    then obtain m where
      r: "result = map (\<lambda>k. to_int16 (quantize rnd (average rnd (w k)))) [0..<m]"
      and d: "divisions = map (\<lambda>k. (float_sum rnd (w k), Num (real (max 1 (length (w k))))))
                            [0..<m]"
      by blast
    have one: "\<forall>d \<in> set divisions. num_le (Num 1) (snd d)"
      by (auto simp: d num_le_def strict_eq_def max_def)
    have len: "length divisions = length result" by (simp add: r d)
    have each: "\<forall>k < length result.
                  divisions ! k = (float_sum rnd (w k), Num (real (max 1 (length (w k)))))
                  \<and> result ! k
                      = to_int16 (quantize rnd (fdiv rnd (fst (divisions ! k)) (snd (divisions ! k))))
                  \<and> (w k = [] \<longrightarrow>
                       fdiv rnd (fst (divisions ! k)) (snd (divisions ! k)) = Num 0
                       \<and> result ! k = 0)"
    proof (intro allI impI)
      fix k assume "k < length result"
      then have k: "k < m" by (simp add: r)
      have dk: "divisions ! k = (float_sum rnd (w k), Num (real (max 1 (length (w k)))))"
        using k by (simp add: d)
      have rk: "result ! k = to_int16 (quantize rnd (average rnd (w k)))"
        using k by (simp add: r)
      have e: "w k = [] \<longrightarrow> fdiv rnd (fst (divisions ! k)) (snd (divisions ! k)) = Num 0
                 \<and> result ! k = 0"
        by (simp add: dk rk average_def float_sum_def quantize_zero js_trunc_def)
      have q: "result ! k
                 = to_int16 (quantize rnd (fdiv rnd (fst (divisions ! k)) (snd (divisions ! k))))"
        by (simp add: dk rk average_def)
      show "divisions ! k = (float_sum rnd (w k), Num (real (max 1 (length (w k)))))
                  \<and> result ! k
                      = to_int16 (quantize rnd (fdiv rnd (fst (divisions ! k)) (snd (divisions ! k))))
                  \<and> (w k = [] \<longrightarrow>
                       fdiv rnd (fst (divisions ! k)) (snd (divisions ! k)) = Num 0
                       \<and> result ! k = 0)"
        using dk q e by blast
    qed
    show ?thesis
      using False one len each fits unfolding w_def ratio_def by blast
  qed
qed

text \<open>An instance of C9: two samples at 8 kHz give four samples at 16 kHz; the
  windows of the second and of the fourth are empty.\<close>

theorem resampler_safe_witness:
  "downsample_run exact (Num 16000) [Num (1 / 2), Num (- 3 / 4)] (Num 8000)
     = Inr ([16383, 0, - 24576, 0],
            [(Num (1 / 2), Num 1), (Num 0, Num 1), (Num (- 3 / 4), Num 1), (Num 0, Num 1)])
   \<and> window exact [Num (1 / 2), Num (- 3 / 4)] (fdiv exact (Num 8000) (Num 16000)) 1 = []
   \<and> fdiv exact (Num 0) (Num 1) = Num 0
   \<and> quantize exact (Num (- 3 / 4)) = Num (- 24576)
   \<and> sint (- 24576 :: 16 word) = - 24576"
proof -
  have a: "downsample_run exact (Num 16000) [Num (1 / 2), Num (- 3 / 4)] (Num 8000)
     = Inr ([16383, 0, - 24576, 0],
            [(Num (1 / 2), Num 1), (Num 0, Num 1), (Num (- 3 / 4), Num 1), (Num 0, Num 1)])"
    by code_simp
  have b: "window exact [Num (1 / 2), Num (- 3 / 4)] (fdiv exact (Num 8000) (Num 16000)) 1 = []"
    by code_simp
  have c: "quantize exact (Num (- 3 / 4)) = Num (- 24576)"
    by code_simp
  have d: "sint (- 24576 :: 16 word) = - 24576"
    by simp
  show ?thesis
    using a b c d resampler_safe [OF faithful_exact a] by (simp add: num_le_def strict_eq_def)
qed

section \<open>Properties of the playback scheduler\<close>

lemma play_result:
  "snd (playGeminiAudio rnd p base64 now) \<noteq> None
     \<and> schedule (fst (playGeminiAudio rnd p base64 now)) = schedule p
     \<and> geminiPlaying (fst (playGeminiAudio rnd p base64 now)) = geminiPlaying p
     \<and> stopped (fst (playGeminiAudio rnd p base64 now)) = stopped p
     \<and> ended (fst (playGeminiAudio rnd p base64 now)) = ended p
   \<or> snd (playGeminiAudio rnd p base64 now) = None
     \<and> (\<exists>e. schedule (fst (playGeminiAudio rnd p base64 now)) = e # schedule p
            \<and> node e = created p
            \<and> startAt e = js_max (fadd rnd now (if geminiPlaybackPrimed p then fl rnd 0.02 else fl rnd 0.2))
                             (geminiOutputTime p))
     \<and> geminiPlaying (fst (playGeminiAudio rnd p base64 now)) = insert (created p) (geminiPlaying p)
     \<and> stopped (fst (playGeminiAudio rnd p base64 now)) = stopped p
     \<and> ended (fst (playGeminiAudio rnd p base64 now)) = ended p"
  by (simp add: playGeminiAudio_def Let_def split: sum.splits number.splits)


lemma tracked_start: "tracked scheduler_start"
  by (simp add: tracked_def scheduler_start_def)

lemma tracked_play: "tracked p \<Longrightarrow> tracked (fst (playGeminiAudio rnd p base64 now))"
  using play_result [of rnd p base64 now] by (auto simp: tracked_def)

lemma tracked_stop: "tracked p \<Longrightarrow> tracked (stopGeminiPlayback p now)"
  by (auto simp: tracked_def stopGeminiPlayback_def)

lemma tracked_ended: "tracked p \<Longrightarrow> tracked (source_ended p source)"
  by (auto simp: tracked_def source_ended_def)

lemma tracked_step: "tracked p \<Longrightarrow> tracked (scheduler_step rnd p ev)"
proof (cases ev)
  case (Play base64 now)
  assume "tracked p"
  then show ?thesis using Play tracked_play by (simp add: scheduler_step_def)
next
  case (Ended source)
  assume "tracked p"
  then show ?thesis using Ended tracked_ended by (simp add: scheduler_step_def)
next
  case (Stop now)
  assume "tracked p"
  then show ?thesis using Stop tracked_stop by (simp add: scheduler_step_def)
qed (simp_all add: scheduler_step_def tracked_def)

lemma tracked_foldl: "tracked p \<Longrightarrow> tracked (foldl (scheduler_step rnd) p evs)"
  by (induction evs arbitrary: p) (simp_all add: tracked_step)

lemma tracked_run: "tracked (scheduler_run rnd evs)"
  unfolding scheduler_run_def using tracked_start by (rule tracked_foldl)

lemma quiet_step:
  "quiet ev \<Longrightarrow>
   geminiOutputTime (scheduler_step rnd p ev) = geminiOutputTime p
   \<and> geminiPlaybackPrimed (scheduler_step rnd p ev) = geminiPlaybackPrimed p"
  by (cases ev) (simp_all add: quiet_def scheduler_step_def source_ended_def)

lemma quiet_foldl:
  "\<forall>ev \<in> set mid. quiet ev \<Longrightarrow>
   geminiOutputTime (foldl (scheduler_step rnd) p mid) = geminiOutputTime p
   \<and> geminiPlaybackPrimed (foldl (scheduler_step rnd) p mid) = geminiPlaybackPrimed p"
  by (induction mid arbitrary: p) (simp_all add: quiet_step)

lemma lead_in_start:
  assumes "faithful rnd" and "now \<le> later" and "fl rnd now = Num now" and "fl rnd later = Num later"
  shows "js_max (fadd rnd (Num later) (fl rnd (1 / 5))) (Num now)
           = fadd rnd (Num later) (fl rnd (1 / 5))
         \<and> num_le (Num later) (fadd rnd (Num later) (fl rnd (1 / 5)))"
proof -
  have "real 0 \<le> 1 / 5" "(1 / 5 :: real) \<le> real 1" by simp_all
  from faithful_between [OF assms(1) this]
  obtain l where l: "fl rnd (1 / 5) = Num l" "0 \<le> l" by auto
  have a: "fadd rnd (Num later) (fl rnd (1 / 5)) = fl rnd (later + l)" by (simp add: l)
  have "num_le (fl rnd later) (fl rnd (later + l))"
    using l(2) by (intro faithful_mono [OF assms(1)]) simp
  then have b: "num_le (Num later) (fl rnd (later + l))" by (simp add: assms(4))
  have "num_le (fl rnd now) (fl rnd (later + l))"
    using l(2) assms(2) by (intro faithful_mono [OF assms(1)]) simp
  then have c: "num_le (Num now) (fl rnd (later + l))" by (simp add: assms(3))
  have "js_max (fl rnd (later + l)) (Num now) = fl rnd (later + l)"
    using c by (cases "fl rnd (later + l)") (auto simp: js_max_def num_le_def strict_eq_def)
  then show ?thesis using a b by simp
qed

text \<open>Claim C8. Let the scheduler be in any state that the page can reach from its
  initial state, with the audio context created, when an interruption stops the
  playback at the time \<open>now\<close> of the output clock. Then every source that was ever
  started has ended or has been stopped, the sources stopped are those of the
  tracking set, the tracking set is empty and the timeline cursor is \<open>now\<close>.
  Whatever events follow that neither play nor stop, the next buffer that is
  scheduled, at a clock time \<open>later\<close> not before the interruption, starts at
  \<open>later\<close> plus the lead-in of an unprimed scheduler (0.2 s), as the doubles add
  them, and not before \<open>later\<close>. The readings of the clock are doubles, and the
  rounding keeps the order and leaves the natural numbers as they are.\<close>

theorem interruption_resets_timeline:
  assumes "faithful rnd"
    and "p = scheduler_run rnd evs" and "geminiAudioContext p"
    and "q = stopGeminiPlayback p (Num now)"
    and "\<forall>ev \<in> set mid. quiet ev"
    and "now \<le> later" and "fl rnd now = Num now" and "fl rnd later = Num later"
    and "playGeminiAudio rnd (foldl (scheduler_step rnd) q mid) base64 (Num later) = (q', None)"
  shows "(\<forall>e \<in> set (schedule q). node e \<in> stopped q \<or> node e \<in> ended q)
       \<and> stopped q = stopped p \<union> geminiPlaying p
       \<and> geminiPlaying q = {}
       \<and> geminiOutputTime q = Num now
       \<and> startAt (hd (schedule q')) = fadd rnd (Num later) (fl rnd 0.2)
       \<and> num_le (Num later) (startAt (hd (schedule q')))"
proof -
  have "tracked q"
    unfolding assms(4) assms(2) using tracked_run by (rule tracked_stop)
  moreover have e: "geminiPlaying q = {}" by (simp add: assms(4) stopGeminiPlayback_def)
  ultimately have a: "\<forall>e \<in> set (schedule q). node e \<in> stopped q \<or> node e \<in> ended q"
    by (simp add: tracked_def)
  have b: "stopped q = stopped p \<union> geminiPlaying p" "geminiOutputTime q = Num now"
    "\<not> geminiPlaybackPrimed q"
    using assms(3) by (simp_all add: assms(4) stopGeminiPlayback_def)
  let ?m = "foldl (scheduler_step rnd) q mid"
  have m: "geminiOutputTime ?m = Num now" "\<not> geminiPlaybackPrimed ?m"
    using quiet_foldl [OF assms(5), of rnd q] b by simp_all
  have "startAt (hd (schedule q')) = js_max (fadd rnd (Num later) (fl rnd (1 / 5))) (Num now)"
    using play_result [of rnd ?m base64 "Num later"] assms(9) m by auto
  then have c: "startAt (hd (schedule q')) = fadd rnd (Num later) (fl rnd 0.2)"
    "num_le (Num later) (startAt (hd (schedule q')))"
    using lead_in_start [OF assms(1,6,7,8)] by simp_all
  show ?thesis using a b(1,2) e c by blast
qed


text \<open>An instance of C8, in exact arithmetic: two buffers are scheduled and the
  first has ended when the interruption comes at time 1/4; the second is
  stopped, and the buffer scheduled at time 1/2 starts at 7/10.\<close>

theorem interruption_resets_timeline_witness:
  "map node (schedule (scheduler_run exact example_events)) = [1, 0]
   \<and> geminiPlaying (scheduler_run exact example_events) = {1}
   \<and> ended (scheduler_run exact example_events) = {0}
   \<and> stopped (stopGeminiPlayback (scheduler_run exact example_events) (Num (1 / 4))) = {1}
   \<and> geminiPlaying (stopGeminiPlayback (scheduler_run exact example_events) (Num (1 / 4))) = {}
   \<and> geminiOutputTime (stopGeminiPlayback (scheduler_run exact example_events) (Num (1 / 4)))
       = Num (1 / 4)
   \<and> snd (playGeminiAudio exact
             (foldl (scheduler_step exact)
                (stopGeminiPlayback (scheduler_run exact example_events) (Num (1 / 4)))
                [Ended 1, Room True])
             ''QUJDRA=='' (Num (1 / 2))) = None
   \<and> startAt (hd (schedule (fst (playGeminiAudio exact
             (foldl (scheduler_step exact)
                (stopGeminiPlayback (scheduler_run exact example_events) (Num (1 / 4)))
                [Ended 1, Room True])
             ''QUJDRA=='' (Num (1 / 2)))))) = Num (7 / 10)"
proof -
  let ?p = "scheduler_run exact example_events"
  let ?q = "stopGeminiPlayback ?p (Num (1 / 4))"
  let ?m = "foldl (scheduler_step exact) ?q [Ended 1, Room True]"
  have a: "map node (schedule ?p) = [1, 0]" by code_simp
  have b: "geminiPlaying ?p = {1}" by code_simp
  have c: "ended ?p = {0}" by code_simp
  have d: "stopped ?q = {1}" by code_simp
  have e: "geminiAudioContext ?p" by code_simp
  have f: "snd (playGeminiAudio exact ?m ''QUJDRA=='' (Num (1 / 2))) = None" by code_simp
  have g: "fadd exact (Num (1 / 2)) (fl exact 0.2) = Num (7 / 10)" by code_simp
  have h: "\<forall>ev \<in> set [Ended 1, Room True]. quiet ev" by (simp add: quiet_def)
  have i: "fl exact (1 / 4) = Num (1 / 4)" "fl exact (1 / 2) = Num (1 / 2)" "(1 / 4 :: real) \<le> 1 / 2"
    by (simp_all add: fl_def exact_def)
  have j: "playGeminiAudio exact ?m ''QUJDRA=='' (Num (1 / 2))
             = (fst (playGeminiAudio exact ?m ''QUJDRA=='' (Num (1 / 2))), None)"
    using f by (simp add: prod_eq_iff)
  show ?thesis
    using a b c d f g interruption_resets_timeline [OF faithful_exact refl e refl h i(3) i(1) i(2) j]
    by simp
qed

end
